theory Spec2Isabelle
  imports Main "HOL-Library.AList"
begin

section \<open>Data model\<close>

text \<open>
  Tool inputs and result metadata are JSON values. Numbers are integers here. An array
  or an object is a reference: the first argument of \<open>JArr\<close> and \<open>JObj\<close> is the identity
  of the object (its address), the second what it holds; the code never changes what
  an array or object of a tool input holds, so an address stands for one content. Two
  values are then equal exactly when JavaScript's \<open>SameValueZero\<close> holds of them, the
  comparison of the keys of a \<open>Map\<close> and of the members of a \<open>Set\<close>: primitive values by
  value, arrays and objects by identity. An object is the list of its properties, in
  order, with distinct keys; a property that is absent from an object (JavaScript's
  \<open>undefined\<close>) is \<open>None\<close> of the lookup \<open>field\<close>.
\<close>

datatype json =
    JNull
  | JBool bool
  | JNum int
  | JStr string
  | JArr nat "json list"
  | JObj nat "(string \<times> json) list"

type_synonym jobject = "(string \<times> json) list"

definition field :: "jobject \<Rightarrow> string \<Rightarrow> json option" where
  "field obj k = map_of obj k"

text \<open>JavaScript truthiness of a property read, as tested by \<open>!v\<close> and \<open>v &&\<close>.\<close>

fun truthy :: "json option \<Rightarrow> bool" where
  "truthy None = False"
| "truthy (Some JNull) = False"
| "truthy (Some (JBool b)) = b"
| "truthy (Some (JNum n)) = (n \<noteq> 0)"
| "truthy (Some (JStr s)) = (s \<noteq> [])"
| "truthy (Some (JArr a xs)) = True"
| "truthy (Some (JObj a kvs)) = True"

text \<open>
  A tool use as the runner gets it (\<open>ToolUse\<close>), its input being an object, and a tool
  result (\<open>ToolResult\<close>): \<open>metadata_path\<close> is \<open>metadata?.path\<close>, the one part of the metadata
  the agent reads.
\<close>

record tool_use =
  tu_id :: string
  tu_name :: string
  tu_input :: jobject

record tool_result =
  tool_use_id :: string
  tr_content :: string
  is_error :: bool
  metadata_path :: "json option"

text \<open>
  The content blocks of a message. \<open>ToolUseBlock id name input\<close> is a block of type
  \<open>tool_use\<close>; \<open>ServerToolUse id\<close> and \<open>WebSearchToolResult tool_use_id\<close> are the
  server-side search pair; \<open>OtherBlock\<close> is any other block type.
\<close>

datatype block =
    TextBlock string
  | ToolUseBlock string string jobject
  | ToolResultBlock tool_result
  | ServerToolUse string
  | WebSearchToolResult string
  | OtherBlock string

section \<open>Read-before-write enforcer (injectReadBeforeWriteBlocks)\<close>

definition READ_TOOL :: string where
  "READ_TOOL = ''either-view''"

definition WRITE_TOOLS :: "string set" where
  "WRITE_TOOLS = {''either-line-replace'', ''either-write''}"

definition ENFORCER_WARNING :: string where
  "ENFORCER_WARNING = ''No `needle` provided; injected a read to reduce risk.''"

record enf_state =
  out :: "block list"
  toolUsesCollected :: "tool_use list"
  seenReadForPath :: "string set"

definition enf_init :: enf_state where
  "enf_init = \<lparr>out = [], toolUsesCollected = [], seenReadForPath = {}\<rparr>"

fun pushAndCollect :: "block \<Rightarrow> enf_state \<Rightarrow> enf_state" where
  "pushAndCollect (ToolUseBlock i n inp) s =
     s\<lparr>out := out s @ [ToolUseBlock i n inp],
       toolUsesCollected := toolUsesCollected s @ [\<lparr>tu_id = i, tu_name = n, tu_input = inp\<rparr>]\<rparr>"
| "pushAndCollect blk s = s\<lparr>out := out s @ [blk]\<rparr>"

text \<open>
  The object spread \<open>{...blk.input, _enforcerWarning: w}\<close>: an existing key keeps its
  place and takes the new value, a new key goes last.
\<close>

definition add_warning :: "jobject \<Rightarrow> jobject" where
  "add_warning inp = AList.update ''_enforcerWarning'' (JStr ENFORCER_WARNING) inp"

text \<open>
  One iteration of the loop over the content blocks. The identifier of an injected read
  comes from the clock and the random generator in the source; here it is \<open>newId\<close> at the
  position the injected block takes in \<open>out\<close>.
\<close>

fun enf_iter :: "(nat \<Rightarrow> string) \<Rightarrow> enf_state \<Rightarrow> block \<Rightarrow> enf_state" where
  "enf_iter newId s (ToolUseBlock i n inp) =
     (if n = READ_TOOL then
        (let s1 = (case field inp ''path'' of
                     Some (JStr p) \<Rightarrow>
                       if p \<noteq> [] then s\<lparr>seenReadForPath := insert p (seenReadForPath s)\<rparr> else s
                   | _ \<Rightarrow> s)
         in pushAndCollect (ToolUseBlock i n inp) s1)
      else if n = ''either-line-replace'' then
        (let s1 = (case field inp ''path'' of
                     Some (JStr p) \<Rightarrow>
                       if p \<noteq> [] \<and> p \<notin> seenReadForPath s then
                         (let injected = ToolUseBlock (newId (length (out s))) READ_TOOL
                                           [(''path'', JStr p)];
                              s' = pushAndCollect injected s
                          in s'\<lparr>seenReadForPath := insert p (seenReadForPath s')\<rparr>)
                       else s
                   | _ \<Rightarrow> s);
             inp' = (if \<not> truthy (field inp ''needle'') then add_warning inp else inp)
         in pushAndCollect (ToolUseBlock i n inp') s1)
      else if n \<in> WRITE_TOOLS then pushAndCollect (ToolUseBlock i n inp) s
      else pushAndCollect (ToolUseBlock i n inp) s)"
| "enf_iter newId s blk = pushAndCollect blk s"

text \<open>
  The source ends by filtering \<open>toolUsesCollected\<close> for entries of type \<open>tool_use\<close>;
  \<open>pushAndCollect\<close> only ever stores such entries, so the filter keeps them all.
\<close>

definition injectReadBeforeWriteBlocks ::
  "(nat \<Rightarrow> string) \<Rightarrow> block list \<Rightarrow> block list \<times> tool_use list" where
  "injectReadBeforeWriteBlocks newId contentBlocks =
     (let s = foldl (enf_iter newId) enf_init contentBlocks
      in (out s, toolUsesCollected s))"

subsection \<open>Vocabulary for the enforcer's properties\<close>

definition is_read_of :: "string \<Rightarrow> block \<Rightarrow> bool" where
  "is_read_of p b = (case b of
      ToolUseBlock i n inp \<Rightarrow> n = READ_TOOL \<and> field inp ''path'' = Some (JStr p)
    | _ \<Rightarrow> False)"

definition edit_target :: "block \<Rightarrow> string option" where
  "edit_target b = (case b of
      ToolUseBlock i n inp \<Rightarrow>
        (if n = ''either-line-replace'' then
           (case field inp ''path'' of Some (JStr p) \<Rightarrow> if p \<noteq> [] then Some p else None | _ \<Rightarrow> None)
         else None)
    | _ \<Rightarrow> None)"

definition annotate :: "block \<Rightarrow> block" where
  "annotate b = (case b of
      ToolUseBlock i n inp \<Rightarrow>
        (if n = ''either-line-replace'' \<and> \<not> truthy (field inp ''needle'')
         then ToolUseBlock i n (add_warning inp) else b)
    | _ \<Rightarrow> b)"

fun tool_uses_of :: "block list \<Rightarrow> tool_use list" where
  "tool_uses_of [] = []"
| "tool_uses_of (ToolUseBlock i n inp # bs) = \<lparr>tu_id = i, tu_name = n, tu_input = inp\<rparr> # tool_uses_of bs"
| "tool_uses_of (b # bs) = tool_uses_of bs"

definition injected_read :: "string \<Rightarrow> string \<Rightarrow> block" where
  "injected_read i p = ToolUseBlock i READ_TOOL [(''path'', JStr p)]"

text \<open>What one iteration appends to out.\<close>

definition enf_chunk :: "(nat \<Rightarrow> string) \<Rightarrow> enf_state \<Rightarrow> block \<Rightarrow> block list" where
  "enf_chunk newId s b = (case edit_target b of
      Some p \<Rightarrow> if p \<in> seenReadForPath s then [annotate b]
                else [injected_read (newId (length (out s))) p, annotate b]
    | None \<Rightarrow> [annotate b])"

definition enf_inv :: "enf_state \<Rightarrow> bool" where
  "enf_inv s = (\<forall>p. p \<in> seenReadForPath s \<longleftrightarrow> p \<noteq> [] \<and> (\<exists>b \<in> set (out s). is_read_of p b))"

fun enf_chunks :: "(nat \<Rightarrow> string) \<Rightarrow> enf_state \<Rightarrow> block list \<Rightarrow> block list list" where
  "enf_chunks newId s [] = []"
| "enf_chunks newId s (b # bs) = enf_chunk newId s b # enf_chunks newId (enf_iter newId s b) bs"

definition is_line_replace :: "block \<Rightarrow> bool" where
  "is_line_replace b = (case b of ToolUseBlock i n inp \<Rightarrow> n = ''either-line-replace'' | _ \<Rightarrow> False)"

section \<open>Conversation history and its validator (validateConversationHistory)\<close>

datatype role = User | Assistant

text \<open>
  The content of a message is meant to be an array of blocks. A history loaded from
  outside may hold anything else there; \<open>NotArray t\<close> is such a value, \<open>t\<close> being what
  \<open>typeof\<close> gives for it.
\<close>

datatype content = Blocks "block list" | NotArray string

record message =
  role :: role
  content :: content

datatype validation_error =
    InvalidContentFormat nat string
  | EmptyContentArray nat

fun error_index :: "validation_error \<Rightarrow> nat" where
  "error_index (InvalidContentFormat idx t) = idx"
| "error_index (EmptyContentArray idx) = idx"

fun server_tool_use_ids :: "block list \<Rightarrow> string list" where
  "server_tool_use_ids [] = []"
| "server_tool_use_ids (ServerToolUse i # bs) = i # server_tool_use_ids bs"
| "server_tool_use_ids (b # bs) = server_tool_use_ids bs"

fun web_search_result_ids :: "block list \<Rightarrow> string list" where
  "web_search_result_ids [] = []"
| "web_search_result_ids (WebSearchToolResult i # bs) = i # web_search_result_ids bs"
| "web_search_result_ids (b # bs) = web_search_result_ids bs"

text \<open>
  The body of the \<open>forEach\<close> for the message at \<open>idx\<close> of a history of \<open>len\<close> messages:
  either the error thrown, or the warnings logged, one \<open>(idx, id)\<close> for each
  \<open>server_tool_use\<close> of an assistant message without a \<open>web_search_tool_result\<close> of the
  same id in that message.
\<close>

definition validate_message :: "nat \<Rightarrow> nat \<Rightarrow> message \<Rightarrow> validation_error + (nat \<times> string) list" where
  "validate_message len idx msg =
     (case content msg of
        NotArray t \<Rightarrow> Inl (InvalidContentFormat idx t)
      | Blocks bs \<Rightarrow>
          if bs = [] \<and> \<not> (idx = len - 1 \<and> role msg = Assistant) then Inl (EmptyContentArray idx)
          else if role msg = Assistant then
            Inr (map (\<lambda>i. (idx, i))
                   (filter (\<lambda>i. i \<notin> set (web_search_result_ids bs)) (server_tool_use_ids bs)))
          else Inr [])"

text \<open>
  The loop over the history. The result is the warnings logged, in order, and the error
  thrown, if any; a throw ends the loop.
\<close>

fun validate_loop :: "nat \<Rightarrow> nat \<Rightarrow> message list \<Rightarrow> (nat \<times> string) list \<times> validation_error option" where
  "validate_loop len idx [] = ([], None)"
| "validate_loop len idx (msg # msgs) =
     (case validate_message len idx msg of
        Inl e \<Rightarrow> ([], Some e)
      | Inr ws \<Rightarrow> (case validate_loop len (Suc idx) msgs of (ws', r) \<Rightarrow> (ws @ ws', r)))"

definition validateConversationHistory :: "message list \<Rightarrow> (nat \<times> string) list \<times> validation_error option" where
  "validateConversationHistory history = validate_loop (length history) 0 history"

subsection \<open>Vocabulary for the validator's properties\<close>

definition shape_violation :: "message list \<Rightarrow> nat \<Rightarrow> bool" where
  "shape_violation h i =
     (case content (h ! i) of
        NotArray t \<Rightarrow> True
      | Blocks bs \<Rightarrow> bs = [] \<and> \<not> (i = length h - 1 \<and> role (h ! i) = Assistant))"

definition violation_error :: "message list \<Rightarrow> nat \<Rightarrow> validation_error" where
  "violation_error h i =
     (case content (h ! i) of
        NotArray t \<Rightarrow> InvalidContentFormat i t
      | Blocks bs \<Rightarrow> EmptyContentArray i)"

definition unpaired_server_tool_use :: "message list \<Rightarrow> nat \<Rightarrow> string \<Rightarrow> bool" where
  "unpaired_server_tool_use h i sid =
     (role (h ! i) = Assistant \<and>
      (case content (h ! i) of
         NotArray t \<Rightarrow> False
       | Blocks bs \<Rightarrow> ServerToolUse sid \<in> set bs \<and> WebSearchToolResult sid \<notin> set bs))"

section \<open>Missing-reference checker (checkMissingFileReferences)\<close>

subsection \<open>Strings\<close>

text \<open>
  Strings are sequences of 8-bit characters here; the source's are UTF-16. The functions
  below are the string methods the checker calls, on ASCII (\<open>includes_str\<close> is
  \<open>String.prototype.includes\<close>).
\<close>

definition toLowerChar :: "char \<Rightarrow> char" where
  "toLowerChar c =
     (let n = (of_char c :: nat) in if 65 \<le> n \<and> n \<le> 90 then char_of (n + 32) else c)"

definition toLowerCase :: "string \<Rightarrow> string" where
  "toLowerCase s = map toLowerChar s"

definition startsWith :: "string \<Rightarrow> string \<Rightarrow> bool" where
  "startsWith s p = (take (length p) s = p)"

definition endsWith :: "string \<Rightarrow> string \<Rightarrow> bool" where
  "endsWith s suf = (length suf \<le> length s \<and> drop (length s - length suf) s = suf)"

fun includes_str :: "string \<Rightarrow> string \<Rightarrow> bool" where
  "includes_str [] p = (p = [])"
| "includes_str (c # cs) p = (startsWith (c # cs) p \<or> includes_str cs p)"

text \<open>\<open>s.replace(/^\.?\//, '')\<close> and \<open>s.replace(/^\.\//, '')\<close>.\<close>

definition strip_dot_slash_or_slash :: "string \<Rightarrow> string" where
  "strip_dot_slash_or_slash s =
     (if startsWith s ''./'' then drop 2 s else if startsWith s ''/'' then drop 1 s else s)"

definition strip_dot_slash :: "string \<Rightarrow> string" where
  "strip_dot_slash s = (if startsWith s ''./'' then drop 2 s else s)"

subsection \<open>Regular expressions, matched by backtracking\<close>

text \<open>
  The three regular expressions of the checker are built from character classes,
  sequence, alternative and greedy repetition. \<open>rx_match r s\<close> lists the rests of \<open>s\<close>
  after each way \<open>r\<close> can match a prefix of \<open>s\<close>, in the order a backtracking matcher
  tries them: the first is the match JavaScript reports.
\<close>

datatype cls =
    Ch char
  | ChCI char
  | OneOf "char list"
  | NoneOf "char list"
  | Space
  | Word

definition is_space :: "char \<Rightarrow> bool" where
  "is_space c = (c \<in> set [CHR '' '', CHR 0x09, CHR 0x0A, CHR 0x0B, CHR 0x0C, CHR 0x0D])"

definition is_word :: "char \<Rightarrow> bool" where
  "is_word c =
     (let n = (of_char c :: nat)
      in (48 \<le> n \<and> n \<le> 57) \<or> (65 \<le> n \<and> n \<le> 90) \<or> (97 \<le> n \<and> n \<le> 122) \<or> n = 95)"

fun cls_ok :: "cls \<Rightarrow> char \<Rightarrow> bool" where
  "cls_ok (Ch c) x = (x = c)"
| "cls_ok (ChCI c) x = (toLowerChar x = toLowerChar c)"
| "cls_ok (OneOf cs) x = (x \<in> set cs)"
| "cls_ok (NoneOf cs) x = (x \<notin> set cs)"
| "cls_ok Space x = is_space x"
| "cls_ok Word x = is_word x"

datatype rx = Eps | Atom cls | Seq rx rx | Alt rx rx | Star rx

function rx_match :: "rx \<Rightarrow> string \<Rightarrow> string list" where
  "rx_match Eps s = [s]"
| "rx_match (Atom c) s = (case s of [] \<Rightarrow> [] | x # xs \<Rightarrow> if cls_ok c x then [xs] else [])"
| "rx_match (Seq a b) s = concat (map (rx_match b) (rx_match a s))"
| "rx_match (Alt a b) s = rx_match a s @ rx_match b s"
| "rx_match (Star a) s =
     concat (map (\<lambda>s'. if length s' < length s then rx_match (Star a) s' else []) (rx_match a s))
       @ [s]"
  by pat_completeness auto
termination
  by (relation "measure size <*lex*> measure length") auto

definition rx_plus :: "rx \<Rightarrow> rx" where
  "rx_plus r = Seq r (Star r)"

definition lit :: "string \<Rightarrow> rx" where
  "lit s = foldr (\<lambda>c r. Seq (Atom (Ch c)) r) s Eps"

definition litCI :: "string \<Rightarrow> rx" where
  "litCI s = foldr (\<lambda>c r. Seq (Atom (ChCI c)) r) s Eps"

text \<open>
  A pattern with one capture group is given as what stands before the group, the group
  and what stands after it. \<open>first_match\<close> is the match at the start of \<open>s\<close>: the text
  captured and the rest of \<open>s\<close> after the whole match.
\<close>

definition first_match :: "rx \<Rightarrow> rx \<Rightarrow> rx \<Rightarrow> string \<Rightarrow> (string \<times> string) option" where
  "first_match pre cap post s =
     (case concat (map (\<lambda>r1. concat (map (\<lambda>r2. map (\<lambda>r3. (take (length r1 - length r2) r1, r3))
                                                  (rx_match post r2))
                                      (rx_match cap r1)))
                   (rx_match pre s)) of
        [] \<Rightarrow> None
      | m # ms \<Rightarrow> Some m)"

text \<open>
  \<open>matchAll\<close> with the \<open>g\<close> flag: the leftmost match, then on from its end. Each result
  is the captured text and the whole matched text.
\<close>

function matchAll :: "rx \<Rightarrow> rx \<Rightarrow> rx \<Rightarrow> string \<Rightarrow> (string \<times> string) list" where
  "matchAll pre cap post s =
     (case first_match pre cap post s of
        Some (c, rest) \<Rightarrow>
          if length rest < length s
          then (c, take (length s - length rest) s) # matchAll pre cap post rest
          else (case s of [] \<Rightarrow> [] | x # xs \<Rightarrow> matchAll pre cap post xs)
      | None \<Rightarrow> (case s of [] \<Rightarrow> [] | x # xs \<Rightarrow> matchAll pre cap post xs))"
  by pat_completeness auto
termination
  by (relation "measure (\<lambda>(pre, cap, post, s). length s)") auto

declare matchAll.simps [simp del]

text \<open>\<open>/<script[^>]+src=["']([^"']+)["']/gi\<close>\<close>

definition script_matches :: "string \<Rightarrow> (string \<times> string) list" where
  "script_matches s =
     matchAll
       (Seq (litCI ''<script'') (Seq (rx_plus (Atom (NoneOf ''>'')))
          (Seq (litCI ''src='') (Atom (OneOf [CHR 0x22, CHR 0x27])))))
       (rx_plus (Atom (NoneOf [CHR 0x22, CHR 0x27])))
       (Atom (OneOf [CHR 0x22, CHR 0x27]))
       s"

text \<open>\<open>/<link[^>]+href=["']([^"']+)["'][^>]*>/gi\<close>\<close>

definition link_matches :: "string \<Rightarrow> (string \<times> string) list" where
  "link_matches s =
     matchAll
       (Seq (litCI ''<link'') (Seq (rx_plus (Atom (NoneOf ''>'')))
          (Seq (litCI ''href='') (Atom (OneOf [CHR 0x22, CHR 0x27])))))
       (rx_plus (Atom (NoneOf [CHR 0x22, CHR 0x27])))
       (Seq (Atom (OneOf [CHR 0x22, CHR 0x27])) (Seq (Star (Atom (NoneOf ''>''))) (Atom (Ch CHR ''>''))))
       s"

text \<open>
  \<open>/import\s+(?:(?:\{[^}]+\}|[\w]+)(?:\s*,\s*(?:\{[^}]+\}|[\w]+))*)\s+from\s+['"]([^'"]+)['"]/g\<close>
\<close>

definition import_binding :: rx where
  "import_binding =
     Alt (Seq (Atom (Ch CHR ''{'')) (Seq (rx_plus (Atom (NoneOf ''}''))) (Atom (Ch CHR ''}''))))
         (rx_plus (Atom Word))"

definition import_matches :: "string \<Rightarrow> (string \<times> string) list" where
  "import_matches s =
     matchAll
       (Seq (lit ''import'') (Seq (rx_plus (Atom Space))
          (Seq import_binding
            (Seq (Star (Seq (Star (Atom Space)) (Seq (Atom (Ch CHR '','')) (Seq (Star (Atom Space)) import_binding))))
              (Seq (rx_plus (Atom Space)) (Seq (lit ''from'') (Seq (rx_plus (Atom Space))
                (Atom (OneOf [CHR 0x27, CHR 0x22])))))))))
       (rx_plus (Atom (NoneOf [CHR 0x27, CHR 0x22])))
       (Atom (OneOf [CHR 0x27, CHR 0x22]))
       s"

subsection \<open>The checker\<close>

text \<open>An entry of the list \<open>missing\<close>; \<open>refFile\<close> is the field \<open>file\<close> of the source.\<close>

record missing_ref =
  htmlFile :: string
  tag :: string
  attr :: string
  refFile :: string

definition is_write_or_edit :: "tool_use \<Rightarrow> bool" where
  "is_write_or_edit tu = (tu_name tu = ''either-write'' \<or> tu_name tu = ''either-line-replace'')"

text \<open>
  The two filters call a string method on \<open>tu.input?.path\<close>. The optional chaining
  stops at a path that is absent or null; on any other value that is not a string the
  call throws a \<open>TypeError\<close>.
\<close>

definition path_throws :: "tool_use \<Rightarrow> bool" where
  "path_throws tu =
     (is_write_or_edit tu \<and>
      (case field (tu_input tu) ''path'' of
         None \<Rightarrow> False
       | Some JNull \<Rightarrow> False
       | Some (JStr p) \<Rightarrow> False
       | Some v \<Rightarrow> True))"

definition path_string :: "tool_use \<Rightarrow> string option" where
  "path_string tu = (case field (tu_input tu) ''path'' of Some (JStr p) \<Rightarrow> Some p | _ \<Rightarrow> None)"

definition is_html_write :: "tool_use \<Rightarrow> bool" where
  "is_html_write tu =
     (is_write_or_edit tu \<and>
      (case path_string tu of Some p \<Rightarrow> endsWith (toLowerCase p) ''.html'' | None \<Rightarrow> False))"

definition is_react_write :: "tool_use \<Rightarrow> bool" where
  "is_react_write tu =
     (is_write_or_edit tu \<and>
      (case path_string tu of
         Some p \<Rightarrow> endsWith p ''.jsx'' \<or> endsWith p ''.tsx'' \<or> endsWith p ''.js'' \<or> endsWith p ''.ts''
       | None \<Rightarrow> False))"

text \<open>
  The content the checker scans for the tool use at position \<open>idx\<close>: that of an
  \<open>either-write\<close> whose result exists and is no error, when it is a non-empty string.
  (\<open>toolUses.indexOf\<close> finds the tool use by identity, so it gives its own position.)
\<close>

definition scanned_content :: "tool_result list \<Rightarrow> nat \<Rightarrow> tool_use \<Rightarrow> string option" where
  "scanned_content toolResults idx tu =
     (if idx < length toolResults \<and> \<not> is_error (toolResults ! idx) \<and> tu_name tu = ''either-write''
      then (case field (tu_input tu) ''content'' of
              Some (JStr c) \<Rightarrow> if c \<noteq> [] then Some c else None
            | _ \<Rightarrow> None)
      else None)"

definition script_missing :: "json set \<Rightarrow> string \<Rightarrow> bool" where
  "script_missing createdFiles scriptPath =
     (JStr (strip_dot_slash_or_slash scriptPath) \<notin> createdFiles \<and> JStr scriptPath \<notin> createdFiles)"

definition possiblePaths :: "string \<Rightarrow> string list" where
  "possiblePaths normalizedPath =
     [normalizedPath,
      normalizedPath @ ''.jsx'',
      normalizedPath @ ''.tsx'',
      normalizedPath @ ''.js'',
      normalizedPath @ ''.ts'',
      normalizedPath @ ''/index.jsx'',
      normalizedPath @ ''/index.tsx'',
      normalizedPath @ ''/index.js'',
      normalizedPath @ ''/index.ts'']"

definition import_exists :: "json set \<Rightarrow> string \<Rightarrow> bool" where
  "import_exists createdFiles importPath =
     (let normalizedPath = strip_dot_slash importPath;
          srcPaths = map (\<lambda>p. ''src/'' @ p) (possiblePaths normalizedPath)
      in list_ex (\<lambda>p. JStr p \<in> createdFiles \<or> JStr (''./'' @ p) \<in> createdFiles
                        \<or> JStr (''/'' @ p) \<in> createdFiles)
           (possiblePaths normalizedPath @ srcPaths))"

definition html_missing :: "json set \<Rightarrow> tool_result list \<Rightarrow> nat \<times> tool_use \<Rightarrow> missing_ref list" where
  "html_missing createdFiles toolResults = (\<lambda>(idx, tu).
     (case path_string tu of
        None \<Rightarrow> []
      | Some htmlPath \<Rightarrow>
          (case scanned_content toolResults idx tu of
             None \<Rightarrow> []
           | Some htmlContent \<Rightarrow>
               map (\<lambda>(scriptPath, whole).
                      \<lparr>htmlFile = htmlPath, tag = ''script'', attr = ''src'', refFile = scriptPath\<rparr>)
                 (filter (\<lambda>(scriptPath, whole). script_missing createdFiles scriptPath)
                    (script_matches htmlContent))
               @ map (\<lambda>(linkPath, fullTag).
                      \<lparr>htmlFile = htmlPath, tag = ''link'', attr = ''href'', refFile = linkPath\<rparr>)
                 (filter (\<lambda>(linkPath, fullTag).
                            includes_str fullTag ''stylesheet'' \<and> script_missing createdFiles linkPath)
                    (link_matches htmlContent)))))"

definition react_missing :: "json set \<Rightarrow> tool_result list \<Rightarrow> nat \<times> tool_use \<Rightarrow> missing_ref list" where
  "react_missing createdFiles toolResults = (\<lambda>(idx, tu).
     (case path_string tu of
        None \<Rightarrow> []
      | Some filePath \<Rightarrow>
          (case scanned_content toolResults idx tu of
             None \<Rightarrow> []
           | Some c \<Rightarrow>
               map (\<lambda>(importPath, whole).
                      \<lparr>htmlFile = filePath, tag = ''import'', attr = ''from'', refFile = importPath\<rparr>)
                 (filter (\<lambda>(importPath, whole).
                            startsWith importPath ''.'' \<and> \<not> import_exists createdFiles importPath)
                    (import_matches c)))))"

text \<open>The result is \<open>None\<close> when a filter throws, else the list \<open>missing\<close>.\<close>

definition checkMissingFileReferences ::
  "tool_use list \<Rightarrow> json set \<Rightarrow> tool_result list \<Rightarrow> missing_ref list option" where
  "checkMissingFileReferences toolUses createdFiles toolResults =
     (if list_ex path_throws toolUses then None
      else
        (let indexed = zip [0..<length toolUses] toolUses;
             htmlWrites = filter (\<lambda>(idx, tu). is_html_write tu) indexed;
             reactWrites = filter (\<lambda>(idx, tu). is_react_write tu) indexed
         in Some (concat (map (html_missing createdFiles toolResults) htmlWrites)
                  @ concat (map (react_missing createdFiles toolResults) reactWrites))))"

definition join_with :: "string \<Rightarrow> string list \<Rightarrow> string" where
  "join_with sep xs = (case xs of [] \<Rightarrow> [] | y # ys \<Rightarrow> foldl (\<lambda>acc x. acc @ sep @ x) y ys)"

text \<open>The warning appended to the last tool result; it opens with a warning sign (U+26A0 U+FE0F).\<close>

definition warningMessage :: "missing_ref list \<Rightarrow> string" where
  "warningMessage missingRefs =
     [CHR 0x0A, CHR 0x0A, CHR 0xE2, CHR 0x9A, CHR 0xA0, CHR 0xEF, CHR 0xB8, CHR 0x8F]
     @ '' WARNING: Missing file references detected:'' @ [CHR 0x0A]
     @ join_with [CHR 0x0A]
         (map (\<lambda>ref. ''  - '' @ htmlFile ref @ '' references <'' @ tag ref @ '' '' @ attr ref @ ''=''
                      @ [CHR 0x22] @ refFile ref @ [CHR 0x22] @ ''> but '' @ refFile ref @ '' was not created'')
              missingRefs)
     @ [CHR 0x0A, CHR 0x0A]
     @ ''You MUST create these files in your next response to make the app functional.''"

section \<open>The turn loop (processRequest)\<close>

datatype phase = Thinking | Reasoning | CodeWriting | Building | Completed

datatype file_op_state = Creating | Editing | Created | Edited

datatype operation = OpCreate | OpEdit

record delta =
  d_type :: string
  d_content :: string

text \<open>
  What a request does to the outside, in order: the callbacks it invokes, and its calls
  of the model client and of the tool runner. \<open>ModelCall\<close> is a call of \<open>sendMessage\<close>;
  when the call returns, \<open>ModelReturn\<close> follows with the deltas the client has passed to
  the \<open>onDelta\<close> handler during the call. \<open>ToolExec\<close> is a call of \<open>executeTools\<close>. The
  pauses the source inserts (\<open>setTimeout\<close>) and the duration passed to
  \<open>onThinkingComplete\<close> are not modelled.
\<close>

datatype event =
    ModelCall
  | ModelReturn "delta list"
  | ToolExec tool_use
  | OnPhase phase
  | OnThinkingComplete
  | OnReasoning string
  | OnDelta string string
  | StdoutWrite string
  | OnFileOperation file_op_state json
  | OnToolStart string string
  | OnToolEnd string string
  | OnComplete nat nat

text \<open>Which of the optional streaming callbacks the caller supplied.\<close>

record callbacks =
  onDelta :: bool
  onReasoning :: bool
  onPhase :: bool
  onThinkingComplete :: bool
  onFileOperation :: bool
  onToolStart :: bool
  onToolEnd :: bool
  onComplete :: bool

record response =
  r_content :: "block list"
  stopReason :: "string option"
  inputTokens :: nat
  outputTokens :: nat

datatype agent_error =
    HistoryInvalid validation_error
  | ModelClientError
  | CheckerTypeError

text \<open>
  The agent's options, the constants of \<open>constants.js\<close> (not among the sources, so they
  are parameters) and its collaborators. The model client is given the number of the turn
  and the history and returns the deltas it streams and its response, or \<open>None\<close> when it
  throws (what it streamed before throwing is not modelled). The tool runner is given the turn, the position of the tool use in the turn
  and the tool use, and returns the results of \<open>executeTools([toolUse])\<close>. The identifier
  of an injected read depends on the turn and on its position in the turn.
\<close>

record env =
  MAX_AGENT_TURNS :: nat
  REASONING_STREAM_CHUNK_SIZE :: nat
  dryRun :: bool
  sendMessage :: "nat \<Rightarrow> message list \<Rightarrow> (delta list \<times> response) option"
  executeTools :: "nat \<Rightarrow> nat \<Rightarrow> tool_use \<Rightarrow> tool_result list"
  runVerification :: "json set \<Rightarrow> string"
  injectedId :: "nat \<Rightarrow> nat \<Rightarrow> string"
  jsonStringify :: "jobject \<Rightarrow> string"

text \<open>The agent's history and the local variables of \<open>processRequest\<close>, \<open>turnCount\<close> apart.\<close>

record lstate =
  conversationHistory :: "message list"
  finalResponse :: string
  changedFiles :: "json set"
  hasExecutedTools :: bool
  totalInputTokens :: nat
  totalOutputTokens :: nat
  justExecutedTools :: bool
  thinkingBuffer :: string
  isInThinkingPhase :: bool
  summaryBuffer :: string
  isInSummaryPhase :: bool
  fileOpsThisRequest :: "json \<rightharpoonup> operation"
  filesCreatedThisRequest :: "json set"
  trace :: "event list"

definition emit :: "event list \<Rightarrow> lstate \<Rightarrow> lstate" where
  "emit es s = s\<lparr>trace := trace s @ es\<rparr>"

subsection \<open>Streaming\<close>

text \<open>The \<open>onDelta\<close> handler given to the model client; \<open>h\<close> is \<open>hasEmittedThinking\<close>.\<close>

definition on_delta :: "callbacks \<Rightarrow> bool \<times> lstate \<Rightarrow> delta \<Rightarrow> bool \<times> lstate" where
  "on_delta cb = (\<lambda>(h, s) d.
     if d_type d = ''text'' then
       (let (h1, s1) = (if \<not> h \<and> onPhase cb
                        then (True, (emit [OnPhase Thinking] s)\<lparr>isInThinkingPhase := True\<rparr>)
                        else (h, s))
        in if isInThinkingPhase s1 then (h1, s1\<lparr>thinkingBuffer := thinkingBuffer s1 @ d_content d\<rparr>)
           else if isInSummaryPhase s1 then (h1, s1\<lparr>summaryBuffer := summaryBuffer s1 @ d_content d\<rparr>)
           else (h1, emit [if onDelta cb then OnDelta (d_type d) (d_content d)
                           else StdoutWrite (d_content d)] s1))
     else (h, s))"

text \<open>
  The chunks of \<open>for (i = 0; i < buf.length; i += size) buf.slice(i, i + size)\<close>. With a
  size of 0 that loop of the source never advances; the constant is positive, and here
  size 0 gives no chunk.
\<close>

function stream_chunks :: "nat \<Rightarrow> string \<Rightarrow> string list" where
  "stream_chunks n buf =
     (if n = 0 \<or> buf = [] then [] else take n buf # stream_chunks n (drop n buf))"
  by pat_completeness auto
termination
  by (relation "measure (\<lambda>(n, buf). length buf)") auto

declare stream_chunks.simps [simp del]

definition thinking_transition :: "callbacks \<Rightarrow> nat \<Rightarrow> tool_use list \<Rightarrow> lstate \<Rightarrow> lstate" where
  "thinking_transition cb chunkSize toolUses s =
     (if isInThinkingPhase s \<and> thinkingBuffer s \<noteq> [] \<and> toolUses \<noteq> [] then
        (emit ((if onThinkingComplete cb then [OnThinkingComplete] else [])
               @ (if onPhase cb then [OnPhase Reasoning] else [])
               @ (if onReasoning cb then map OnReasoning (stream_chunks chunkSize (thinkingBuffer s))
                  else [])) s)
          \<lparr>isInThinkingPhase := False, thinkingBuffer := []\<rparr>
      else if isInThinkingPhase s \<and> thinkingBuffer s \<noteq> [] \<and> toolUses = [] then
        (emit (if onDelta cb then [OnDelta ''text'' (thinkingBuffer s)] else []) s)
          \<lparr>isInThinkingPhase := False, thinkingBuffer := []\<rparr>
      else s)"

definition push_assistant :: "block list \<Rightarrow> lstate \<Rightarrow> lstate" where
  "push_assistant enforcedAssistantBlocks s =
     s\<lparr>conversationHistory := conversationHistory s @
          [\<lparr>role = Assistant,
            content = Blocks (if enforcedAssistantBlocks \<noteq> [] then enforcedAssistantBlocks
                              else [TextBlock ''...''])\<rparr>]\<rparr>"

fun text_of_blocks :: "block list \<Rightarrow> string list" where
  "text_of_blocks [] = []"
| "text_of_blocks (TextBlock t # bs) = t # text_of_blocks bs"
| "text_of_blocks (b # bs) = text_of_blocks bs"

text \<open>The branch \<open>toolUses.length === 0\<close>, up to its \<open>break\<close>.\<close>

definition finish_without_tools :: "env \<Rightarrow> callbacks \<Rightarrow> string \<Rightarrow> lstate \<Rightarrow> lstate" where
  "finish_without_tools env cb textBlocks s =
     (let s1 = s\<lparr>finalResponse := textBlocks\<rparr>;
          s2 = (if isInSummaryPhase s1 \<and> summaryBuffer s1 \<noteq> [] then
                  (emit ((if onPhase cb then [OnPhase Building] else [])
                         @ (if onDelta cb
                            then map (OnDelta ''text'')
                                   (stream_chunks (REASONING_STREAM_CHUNK_SIZE env) (summaryBuffer s1))
                            else [])) s1)
                    \<lparr>isInSummaryPhase := False, summaryBuffer := []\<rparr>
                else s1)
      in if hasExecutedTools s2 \<and> \<not> dryRun env
         then s2\<lparr>finalResponse := finalResponse s2 @ runVerification env (changedFiles s2)\<rparr>
         else s2)"

subsection \<open>Tool execution\<close>

text \<open>
  One iteration of \<open>for (const toolUse of toolUses)\<close>: the state, \<open>newFileOpsThisTurn\<close>
  and \<open>toolResults\<close> before and after. The keys of \<open>fileOpsThisRequest\<close> and
  \<open>newFileOpsThisTurn\<close> and the members of \<open>filesCreatedThisRequest\<close> are compared by
  \<open>SameValueZero\<close>, which is the equality of \<open>json\<close>: a path that is an array or an
  object is the same key only when it is the same object.
\<close>

definition track_file_op ::
  "callbacks \<Rightarrow> tool_use \<Rightarrow> lstate \<times> (json \<rightharpoonup> operation) \<Rightarrow> lstate \<times> (json \<rightharpoonup> operation)" where
  "track_file_op cb toolUse = (\<lambda>(s, newFileOpsThisTurn).
     (case field (tu_input toolUse) ''path'' of
        None \<Rightarrow> (s, newFileOpsThisTurn)
      | Some filePath \<Rightarrow>
          if truthy (Some filePath) \<and> is_write_or_edit toolUse then
            (let operation = (if filePath \<in> filesCreatedThisRequest s then OpEdit
                              else if tu_name toolUse = ''either-write'' then OpCreate
                              else OpEdit);
                 s1 = (if filePath \<notin> filesCreatedThisRequest s \<and> tu_name toolUse = ''either-write''
                       then s\<lparr>filesCreatedThisRequest := insert filePath (filesCreatedThisRequest s)\<rparr>
                       else s)
             in if fileOpsThisRequest s1 filePath = None then
                  ((emit (if onFileOperation cb
                          then [OnFileOperation (if operation = OpCreate then Creating else Editing) filePath]
                          else []) s1)
                     \<lparr>fileOpsThisRequest := (fileOpsThisRequest s1)(filePath \<mapsto> operation)\<rparr>,
                   newFileOpsThisTurn(filePath \<mapsto> operation))
                else (s1, newFileOpsThisTurn))
          else (s, newFileOpsThisTurn)))"

definition completion_events :: "callbacks \<Rightarrow> tool_use \<Rightarrow> (json \<rightharpoonup> operation) \<Rightarrow> event list" where
  "completion_events cb toolUse newFileOpsThisTurn =
     (case field (tu_input toolUse) ''path'' of
        None \<Rightarrow> []
      | Some filePath \<Rightarrow>
          if truthy (Some filePath) \<and> newFileOpsThisTurn filePath \<noteq> None \<and> onFileOperation cb
          then [OnFileOperation (if newFileOpsThisTurn filePath = Some OpCreate then Created else Edited)
                  filePath]
          else [])"

definition exec_tool ::
  "env \<Rightarrow> callbacks \<Rightarrow> nat \<Rightarrow> lstate \<times> (json \<rightharpoonup> operation) \<times> tool_result list \<Rightarrow> nat \<times> tool_use
     \<Rightarrow> lstate \<times> (json \<rightharpoonup> operation) \<times> tool_result list" where
  "exec_tool env cb turnCount = (\<lambda>(s, newFileOpsThisTurn, toolResults) (idx, toolUse).
     (let filePath = field (tu_input toolUse) ''path'';
          (s1, ops1) = track_file_op cb toolUse (s, newFileOpsThisTurn);
          s2 = emit (if onToolStart cb \<and> \<not> truthy filePath
                     then [OnToolStart (tu_name toolUse) (tu_id toolUse)] else []) s1;
          result = executeTools env turnCount idx toolUse;
          s3 = emit [ToolExec toolUse] s2;
          s4 = emit (completion_events cb toolUse ops1) s3;
          s5 = emit (if onToolEnd cb \<and> \<not> truthy filePath
                     then [OnToolEnd (tu_name toolUse) (tu_id toolUse)] else []) s4
      in (s5, ops1, toolResults @ result)))"

text \<open>The paths \<open>metadata.path\<close> of the results that are no errors.\<close>

definition created_paths :: "tool_result list \<Rightarrow> json set" where
  "created_paths toolResults =
     set (concat (map (\<lambda>r. case metadata_path r of
                              None \<Rightarrow> []
                            | Some p \<Rightarrow> if truthy (Some p) \<and> \<not> is_error r then [p] else [])
                      toolResults))"

definition append_warning :: "missing_ref list \<Rightarrow> tool_result list \<Rightarrow> tool_result list" where
  "append_warning missingRefs toolResults =
     (if missingRefs \<noteq> [] \<and> toolResults \<noteq> []
      then butlast toolResults
             @ [(last toolResults)\<lparr>tr_content := tr_content (last toolResults) @ warningMessage missingRefs\<rparr>]
      else toolResults)"

text \<open>
  The tool results of a turn and the state after it; \<open>None\<close> when the checker throws.
\<close>

definition run_tools ::
  "env \<Rightarrow> callbacks \<Rightarrow> nat \<Rightarrow> tool_use list \<Rightarrow> lstate \<Rightarrow> tool_result list option \<times> lstate" where
  "run_tools env cb turnCount toolUses s =
     (if dryRun env then
        (Some (map (\<lambda>tu. \<lparr>tool_use_id = tu_id tu,
                           tr_content = ''[DRY RUN] Would execute: '' @ tu_name tu @ '' with input: ''
                                          @ jsonStringify env (tu_input tu),
                           is_error = False, metadata_path = None\<rparr>) toolUses), s)
      else
        (let (s1, ops, toolResults) =
               foldl (exec_tool env cb turnCount) (s, Map.empty, []) (zip [0..<length toolUses] toolUses);
             s2 = s1\<lparr>hasExecutedTools := True\<rparr>;
             createdFilesThisTurn = created_paths toolResults;
             s3 = s2\<lparr>changedFiles := changedFiles s2 \<union> createdFilesThisTurn\<rparr>
         in (case checkMissingFileReferences toolUses createdFilesThisTurn toolResults of
               None \<Rightarrow> (None, s3)
             | Some missingRefs \<Rightarrow> (Some (append_warning missingRefs toolResults), s3))))"

subsection \<open>One turn and the loop\<close>

datatype outcome = Continue | Break | Threw agent_error

text \<open>The body of the \<open>while\<close> loop after the model client has returned.\<close>

definition after_response ::
  "env \<Rightarrow> callbacks \<Rightarrow> nat \<Rightarrow> lstate \<Rightarrow> response \<Rightarrow> outcome \<times> lstate" where
  "after_response env cb turnCount s2 resp =
     (let s3 = s2\<lparr>totalInputTokens := totalInputTokens s2 + inputTokens resp,
                  totalOutputTokens := totalOutputTokens s2 + outputTokens resp\<rparr>;
          textBlocks = join_with [CHR 0x0A] (text_of_blocks (r_content resp));
          (enforcedAssistantBlocks, toolUses) =
             injectReadBeforeWriteBlocks (injectedId env turnCount) (r_content resp);
          s4 = thinking_transition cb (REASONING_STREAM_CHUNK_SIZE env) toolUses s3;
          s5 = push_assistant enforcedAssistantBlocks s4
      in if toolUses = [] then (Break, finish_without_tools env cb textBlocks s5)
         else
           (let s6 = (emit (if onPhase cb then [OnPhase CodeWriting] else []) s5)
                       \<lparr>justExecutedTools := True, hasExecutedTools := True\<rparr>
            in (case run_tools env cb turnCount toolUses s6 of
                  (None, s7) \<Rightarrow> (Threw CheckerTypeError, s7)
                | (Some toolResults, s7) \<Rightarrow>
                    (Continue,
                     s7\<lparr>conversationHistory := conversationHistory s7 @
                          [\<lparr>role = User, content = Blocks (map ToolResultBlock toolResults)\<rparr>]\<rparr>))))"

text \<open>
  The body of the \<open>while\<close> loop; \<open>turnCount\<close> is the counter after its increment. Both
  branches of the final test of \<open>stopReason\<close> go on with the next iteration, so the
  outcome does not depend on it.
\<close>

definition turn :: "env \<Rightarrow> callbacks \<Rightarrow> nat \<Rightarrow> lstate \<Rightarrow> outcome \<times> lstate" where
  "turn env cb turnCount s =
     (case snd (validateConversationHistory (conversationHistory s)) of
        Some e \<Rightarrow> (Threw (HistoryInvalid e), s)
      | None \<Rightarrow>
          (let hasEmittedThinking = justExecutedTools s;
               s1 = (if justExecutedTools s
                     then s\<lparr>isInSummaryPhase := True, summaryBuffer := [], justExecutedTools := False\<rparr>
                     else s)
           in (case sendMessage env turnCount (conversationHistory s1) of
                 None \<Rightarrow> (Threw ModelClientError, emit [ModelCall] s1)
               | Some (deltas, resp) \<Rightarrow>
                   after_response env cb turnCount
                     (emit [ModelReturn deltas]
                        (snd (foldl (on_delta cb) (hasEmittedThinking, emit [ModelCall] s1) deltas)))
                     resp)))"

function run_loop :: "env \<Rightarrow> callbacks \<Rightarrow> nat \<Rightarrow> lstate \<Rightarrow> agent_error option \<times> lstate" where
  "run_loop env cb turnCount s =
     (if turnCount < MAX_AGENT_TURNS env then
        (case turn env cb (Suc turnCount) s of
           (Continue, s') \<Rightarrow> run_loop env cb (Suc turnCount) s'
         | (Break, s') \<Rightarrow> (None, s')
         | (Threw e, s') \<Rightarrow> (Some e, s'))
      else (None, s))"
  by pat_completeness auto
termination
  by (relation "measure (\<lambda>(env, cb, turnCount, s). MAX_AGENT_TURNS env - turnCount)") auto

declare run_loop.simps [simp del]

definition initial_state :: "message list \<Rightarrow> string \<Rightarrow> lstate" where
  "initial_state history userMessage =
     \<lparr>conversationHistory = history @ [\<lparr>role = User, content = Blocks [TextBlock userMessage]\<rparr>],
      finalResponse = [],
      changedFiles = {},
      hasExecutedTools = False,
      totalInputTokens = 0,
      totalOutputTokens = 0,
      justExecutedTools = False,
      thinkingBuffer = [],
      isInThinkingPhase = False,
      summaryBuffer = [],
      isInSummaryPhase = False,
      fileOpsThisRequest = Map.empty,
      filesCreatedThisRequest = {},
      trace = []\<rparr>"

text \<open>
  \<open>processRequest\<close> for an agent whose history is \<open>history\<close>: the error thrown or the
  string returned, and the final state with the trace of the request.
\<close>

definition processRequest ::
  "env \<Rightarrow> callbacks \<Rightarrow> message list \<Rightarrow> string \<Rightarrow> (agent_error + string) \<times> lstate" where
  "processRequest env cb history userMessage =
     (case run_loop env cb 0 (initial_state history userMessage) of
        (Some e, s) \<Rightarrow> (Inl e, s)
      | (None, s) \<Rightarrow>
          (Inr (finalResponse s),
           emit ((if onPhase cb then [OnPhase Completed] else [])
                 @ (if onComplete cb then [OnComplete (totalInputTokens s) (totalOutputTokens s)] else []))
             s))"

subsection \<open>Vocabulary for the loop's properties\<close>

definition model_calls :: "event list \<Rightarrow> nat" where
  "model_calls tr = length (filter (\<lambda>e. e = ModelCall) tr)"

fun phases_of :: "event list \<Rightarrow> phase list" where
  "phases_of [] = []"
| "phases_of (OnPhase p # es) = p # phases_of es"
| "phases_of (e # es) = phases_of es"

text \<open>The deltas of each call of the model client that returned, in order.\<close>

fun returns_of :: "event list \<Rightarrow> delta list list" where
  "returns_of [] = []"
| "returns_of (ModelReturn ds # es) = ds # returns_of es"
| "returns_of (e # es) = returns_of es"

text \<open>The deltas streamed in the last call of the model client that returned.\<close>

definition last_streamed :: "event list \<Rightarrow> delta list" where
  "last_streamed tr = (if returns_of tr = [] then [] else last (returns_of tr))"

text \<open>The text a turn streams: the contents of its deltas of type \<open>text\<close>, concatenated.\<close>

definition streamed_text :: "delta list \<Rightarrow> string" where
  "streamed_text deltas = concat (map d_content (filter (\<lambda>d. d_type d = ''text'') deltas))"

definition all_callbacks :: callbacks where
  "all_callbacks =
     \<lparr>onDelta = True, onReasoning = True, onPhase = True, onThinkingComplete = True,
      onFileOperation = True, onToolStart = True, onToolEnd = True, onComplete = True\<rparr>"

text \<open>
  The state of a turn when the assistant message has been pushed, from the state after
  streaming; and from there the state in which the tools are run.
\<close>

definition assistant_pushed ::
  "env \<Rightarrow> callbacks \<Rightarrow> block list \<Rightarrow> tool_use list \<Rightarrow> response \<Rightarrow> lstate \<Rightarrow> lstate" where
  "assistant_pushed env cb bs tus resp s =
     push_assistant bs
       (thinking_transition cb (REASONING_STREAM_CHUNK_SIZE env) tus
          (s\<lparr>totalInputTokens := totalInputTokens s + inputTokens resp,
             totalOutputTokens := totalOutputTokens s + outputTokens resp\<rparr>))"

definition tools_start ::
  "env \<Rightarrow> callbacks \<Rightarrow> block list \<Rightarrow> tool_use list \<Rightarrow> response \<Rightarrow> lstate \<Rightarrow> lstate" where
  "tools_start env cb bs tus resp s =
     (emit (if onPhase cb then [OnPhase CodeWriting] else []) (assistant_pushed env cb bs tus resp s))
       \<lparr>justExecutedTools := True, hasExecutedTools := True\<rparr>"

text \<open>The state in which the model client is called, and the state after streaming.\<close>

definition call_state :: "lstate \<Rightarrow> lstate" where
  "call_state s =
     emit [ModelCall]
       (if justExecutedTools s
        then s\<lparr>isInSummaryPhase := True, summaryBuffer := [], justExecutedTools := False\<rparr>
        else s)"

definition streamed :: "callbacks \<Rightarrow> lstate \<Rightarrow> delta list \<Rightarrow> lstate" where
  "streamed cb s deltas =
     emit [ModelReturn deltas] (snd (foldl (on_delta cb) (justExecutedTools s, call_state s) deltas))"


subsection \<open>Vocabulary for the properties of tool execution\<close>

definition file_path :: "tool_use \<Rightarrow> json option" where
  "file_path tu = field (tu_input tu) ''path''"




text \<open>Every path in \<open>filesCreatedThisRequest\<close> has an entry in \<open>fileOpsThisRequest\<close>.\<close>

definition created_tracked :: "lstate \<Rightarrow> bool" where
  "created_tracked s = (\<forall>p \<in> filesCreatedThisRequest s. fileOpsThisRequest s p \<noteq> None)"



subsection \<open>Vocabulary for the checker's properties\<close>



section \<open>Example requests\<close>

text \<open>
  A model client that asks for one \<open>either-write\<close> of \<open>main.js\<close> in the first turn and
  answers with text alone from the second turn on, streaming nothing; a tool runner that
  reports success with the path of the tool use as metadata.
\<close>

definition demo_response1 :: response where
  "demo_response1 =
     \<lparr>r_content = [ToolUseBlock ''t1'' ''either-write''
                     [(''path'', JStr ''main.js''), (''content'', JStr ''x'')]],
      stopReason = Some ''tool_use'', inputTokens = 1, outputTokens = 1\<rparr>"

definition demo_response2 :: response where
  "demo_response2 =
     \<lparr>r_content = [TextBlock ''done''],
      stopReason = Some ''end_turn'', inputTokens = 1, outputTokens = 1\<rparr>"

definition demo_runner :: "nat \<Rightarrow> nat \<Rightarrow> tool_use \<Rightarrow> tool_result list" where
  "demo_runner n i tu =
     [\<lparr>tool_use_id = tu_id tu, tr_content = ''ok'', is_error = False,
       metadata_path = field (tu_input tu) ''path''\<rparr>]"

definition demo_env :: env where
  "demo_env =
     \<lparr>MAX_AGENT_TURNS = 5, REASONING_STREAM_CHUNK_SIZE = 2, dryRun = False,
      sendMessage = (\<lambda>n h. if n = 1 then Some ([], demo_response1) else Some ([], demo_response2)),
      executeTools = demo_runner,
      runVerification = (\<lambda>c. ''verified''),
      injectedId = (\<lambda>n i. ''enforcer-view''),
      jsonStringify = (\<lambda>j. ''{}'')\<rparr>"

text \<open>Scenario D: an assistant message whose content is the bare string \<open>hello\<close>.\<close>

definition history_bare_string :: "message list" where
  "history_bare_string =
     [\<lparr>role = User, content = Blocks [TextBlock ''question'']\<rparr>,
      \<lparr>role = Assistant, content = NotArray ''string''\<rparr>]"

text \<open>An assistant message with a \<open>server_tool_use\<close> and no result for it.\<close>

definition history_unpaired :: "message list" where
  "history_unpaired =
     [\<lparr>role = User, content = Blocks [TextBlock ''question'']\<rparr>,
      \<lparr>role = Assistant, content = Blocks [ServerToolUse ''srvtoolu_1'', TextBlock ''answer'']\<rparr>]"

text \<open>The same model client, streaming a text delta in each turn.\<close>

definition demo_env_text :: env where
  "demo_env_text =
     demo_env\<lparr>sendMessage :=
       (\<lambda>n h. if n = 1 then Some ([\<lparr>d_type = ''text'', d_content = ''I will create main.js''\<rparr>], demo_response1)
               else Some ([\<lparr>d_type = ''text'', d_content = ''done''\<rparr>], demo_response2))\<rparr>"

text \<open>The same, streaming a text delta in the first turn only.\<close>

definition demo_env_silent_end :: env where
  "demo_env_silent_end =
     demo_env\<lparr>sendMessage :=
       (\<lambda>n h. if n = 1 then Some ([\<lparr>d_type = ''text'', d_content = ''I will create main.js''\<rparr>], demo_response1)
               else Some ([], demo_response2))\<rparr>"





















section \<open>Properties of the enforcer\<close>

lemma tool_uses_of_append: "tool_uses_of (xs @ ys) = tool_uses_of xs @ tool_uses_of ys"
  by (induction xs rule: tool_uses_of.induct) auto

lemma pushAndCollect_out: "out (pushAndCollect b s) = out s @ [b]"
  by (cases b) auto

lemma pushAndCollect_tus: "toolUsesCollected (pushAndCollect b s) = toolUsesCollected s @ tool_uses_of [b]"
  by (cases b) auto

lemma pushAndCollect_seen: "seenReadForPath (pushAndCollect b s) = seenReadForPath s"
  by (cases b) auto

lemma READ_ne: "READ_TOOL \<noteq> ''either-line-replace''" by (simp add: READ_TOOL_def)

lemma enf_iter_out: "out (enf_iter newId s b) = out s @ enf_chunk newId s b"
  by (cases b)
     (auto simp: enf_chunk_def edit_target_def annotate_def injected_read_def Let_def READ_ne
         pushAndCollect_out pushAndCollect_seen
       split: option.splits json.splits)

lemma enf_iter_tus:
  "toolUsesCollected (enf_iter newId s b) = toolUsesCollected s @ tool_uses_of (enf_chunk newId s b)"
  by (cases b)
     (auto simp: enf_chunk_def edit_target_def annotate_def injected_read_def Let_def READ_ne
         pushAndCollect_out pushAndCollect_seen
       split: option.splits json.splits)

lemma enf_inv_init: "enf_inv enf_init"
  by (simp add: enf_inv_def enf_init_def)

lemma field_single: "field [(k, v)] k' = (if k = k' then Some v else None)"
  by (simp add: field_def)

lemma enf_iter_inv: "enf_inv s \<Longrightarrow> enf_inv (enf_iter newId s b)"
  apply (cases b)
  apply (auto simp: enf_inv_def is_read_of_def Let_def READ_ne field_single
         pushAndCollect_out pushAndCollect_seen
       split: option.splits json.splits)
  done

lemma length_enf_chunks: "length (enf_chunks newId s bs) = length bs"
  by (induction bs arbitrary: s) auto

lemma foldl_enf_out:
  "out (foldl (enf_iter newId) s bs) = out s @ concat (enf_chunks newId s bs)"
  by (induction bs arbitrary: s) (auto simp: enf_iter_out)

lemma foldl_enf_tus:
  "toolUsesCollected (foldl (enf_iter newId) s bs) =
     toolUsesCollected s @ tool_uses_of (concat (enf_chunks newId s bs))"
  by (induction bs arbitrary: s) (auto simp: enf_iter_tus tool_uses_of_append)

lemma foldl_enf_inv: "enf_inv s \<Longrightarrow> enf_inv (foldl (enf_iter newId) s bs)"
  by (induction bs arbitrary: s) (auto simp: enf_iter_inv)

lemma enf_chunk_inv:
  "enf_inv s \<Longrightarrow> enf_chunk newId s b = (case edit_target b of
      Some p \<Rightarrow> (if \<exists>r \<in> set (out s). is_read_of p r then []
                 else [injected_read (newId (length (out s))) p]) @ [annotate b]
    | None \<Rightarrow> [annotate b])"
  by (auto simp: enf_chunk_def enf_inv_def edit_target_def split: option.splits block.splits json.splits if_splits)

lemma enf_chunks_nth:
  "enf_inv s \<Longrightarrow> i < length bs \<Longrightarrow>
   enf_chunks newId s bs ! i = (case edit_target (bs ! i) of
      Some p \<Rightarrow> (if \<exists>r \<in> set (out s @ concat (take i (enf_chunks newId s bs))). is_read_of p r then []
                 else [injected_read (newId (length (out s @ concat (take i (enf_chunks newId s bs))))) p])
               @ [annotate (bs ! i)]
    | None \<Rightarrow> [annotate (bs ! i)])"
proof (induction bs arbitrary: s i)
  case Nil
  then show ?case by simp
next
  case (Cons b bs)
  show ?case
  proof (cases i)
    case 0
    then show ?thesis using enf_chunk_inv [OF Cons.prems(1), of newId b]
      by (simp split: option.split)
  next
    case (Suc j)
    have inv': "enf_inv (enf_iter newId s b)" using Cons.prems(1) by (rule enf_iter_inv)
    have j: "j < length bs" using Cons.prems(2) Suc by simp
    show ?thesis
      using Cons.IH [OF inv' j] Suc by (simp add: enf_iter_out split: option.split)
  qed
qed

lemma annotate_other: "\<not> is_line_replace b \<Longrightarrow> annotate b = b"
  by (auto simp: annotate_def is_line_replace_def split: block.splits)

lemma edit_target_line_replace: "edit_target b = Some p \<Longrightarrow> is_line_replace b"
  by (auto simp: edit_target_def is_line_replace_def split: block.splits if_splits)

text \<open>
  C3. The enforcer's output is the concatenation of one chunk per input block, in input
  order. The chunk of an \<open>either-line-replace\<close> block whose path is a non-empty string
  \<open>p\<close> is the block itself (with the needle annotation, if any) preceded by an injected
  \<open>either-view\<close> of \<open>p\<close> if and only if no \<open>either-view\<close> of \<open>p\<close>, explicit or injected,
  is among the blocks emitted before it in the same turn. Every other block is its own
  chunk. The executable tool list is exactly the \<open>tool_use\<close> blocks of the returned
  content sequence, in the same order, so an injected read sits immediately before its
  edit in both and pass-through invocations keep their relative order.
\<close>

theorem enforcer_injection:
  assumes "injectReadBeforeWriteBlocks newId blocks = (cbs, tus)"
  shows "\<exists>chunks. length chunks = length blocks \<and> cbs = concat chunks \<and> tus = tool_uses_of cbs \<and>
     (\<forall>i<length blocks.
        (case edit_target (blocks ! i) of
           Some p \<Rightarrow>
             chunks ! i =
               (if \<exists>r \<in> set (concat (take i chunks)). is_read_of p r then []
                else [injected_read (newId (length (concat (take i chunks)))) p])
               @ [annotate (blocks ! i)]
         | None \<Rightarrow> chunks ! i = [annotate (blocks ! i)]) \<and>
        (\<not> is_line_replace (blocks ! i) \<longrightarrow> chunks ! i = [blocks ! i]))"
proof -
  let ?chunks = "enf_chunks newId enf_init blocks"
  have o: "out enf_init = []" and t: "toolUsesCollected enf_init = []"
    by (simp_all add: enf_init_def)
  have cbs: "cbs = concat ?chunks"
    using assms foldl_enf_out [of newId enf_init blocks] o
    by (simp add: injectReadBeforeWriteBlocks_def Let_def)
  have tus: "tus = tool_uses_of cbs"
    using assms foldl_enf_tus [of newId enf_init blocks] t cbs
    by (simp add: injectReadBeforeWriteBlocks_def Let_def)
  have nth: "\<And>i. i < length blocks \<Longrightarrow>
      (case edit_target (blocks ! i) of
           Some p \<Rightarrow>
             ?chunks ! i =
               (if \<exists>r \<in> set (concat (take i ?chunks)). is_read_of p r then []
                else [injected_read (newId (length (concat (take i ?chunks)))) p])
               @ [annotate (blocks ! i)]
         | None \<Rightarrow> ?chunks ! i = [annotate (blocks ! i)]) \<and>
        (\<not> is_line_replace (blocks ! i) \<longrightarrow> ?chunks ! i = [blocks ! i])"
  proof -
    fix i assume i: "i < length blocks"
    have c: "?chunks ! i = (case edit_target (blocks ! i) of
      Some p \<Rightarrow> (if \<exists>r \<in> set (concat (take i ?chunks)). is_read_of p r then []
                 else [injected_read (newId (length (concat (take i ?chunks)))) p])
               @ [annotate (blocks ! i)]
    | None \<Rightarrow> [annotate (blocks ! i)])"
      using enf_chunks_nth [OF enf_inv_init i, of newId] by (simp add: o split: option.split)
    show "(case edit_target (blocks ! i) of
           Some p \<Rightarrow>
             ?chunks ! i =
               (if \<exists>r \<in> set (concat (take i ?chunks)). is_read_of p r then []
                else [injected_read (newId (length (concat (take i ?chunks)))) p])
               @ [annotate (blocks ! i)]
         | None \<Rightarrow> ?chunks ! i = [annotate (blocks ! i)]) \<and>
        (\<not> is_line_replace (blocks ! i) \<longrightarrow> ?chunks ! i = [blocks ! i])"
    proof (cases "edit_target (blocks ! i)")
      case None
      then show ?thesis using c by (simp add: annotate_other)
    next
      case (Some p)
      then show ?thesis using c edit_target_line_replace [OF Some] by simp
    qed
  qed
  show ?thesis
    using cbs tus nth length_enf_chunks [of newId enf_init blocks] by blast
qed

lemmas enf_eval = injectReadBeforeWriteBlocks_def enf_init_def READ_TOOL_def WRITE_TOOLS_def
  add_warning_def ENFORCER_WARNING_def field_def Let_def

text \<open>The theorem at a turn with a text block and one edit of an unread path.\<close>

theorem enforcer_injection_witness:
  "injectReadBeforeWriteBlocks (\<lambda>n. ''enforcer-view-1'')
     [TextBlock ''plan'',
      ToolUseBlock ''t1'' ''either-line-replace'' [(''path'', JStr ''src/App.tsx''), (''needle'', JStr ''x'')]]
   = ([TextBlock ''plan'',
       ToolUseBlock ''enforcer-view-1'' ''either-view'' [(''path'', JStr ''src/App.tsx'')],
       ToolUseBlock ''t1'' ''either-line-replace'' [(''path'', JStr ''src/App.tsx''), (''needle'', JStr ''x'')]],
      [\<lparr>tu_id = ''enforcer-view-1'', tu_name = ''either-view'', tu_input = [(''path'', JStr ''src/App.tsx'')]\<rparr>,
       \<lparr>tu_id = ''t1'', tu_name = ''either-line-replace'',
         tu_input = [(''path'', JStr ''src/App.tsx''), (''needle'', JStr ''x'')]\<rparr>])
   \<and> (\<exists>chunks. length chunks = 2 \<and>
         chunks ! 0 = [TextBlock ''plan''] \<and>
         chunks ! 1 = [injected_read ''enforcer-view-1'' ''src/App.tsx'',
                       ToolUseBlock ''t1'' ''either-line-replace''
                         [(''path'', JStr ''src/App.tsx''), (''needle'', JStr ''x'')]])"
proof -
  let ?blocks = "[TextBlock ''plan'',
      ToolUseBlock ''t1'' ''either-line-replace'' [(''path'', JStr ''src/App.tsx''), (''needle'', JStr ''x'')]]"
  have h: "injectReadBeforeWriteBlocks (\<lambda>n. ''enforcer-view-1'') ?blocks
   = ([TextBlock ''plan'',
       ToolUseBlock ''enforcer-view-1'' ''either-view'' [(''path'', JStr ''src/App.tsx'')],
       ToolUseBlock ''t1'' ''either-line-replace'' [(''path'', JStr ''src/App.tsx''), (''needle'', JStr ''x'')]],
      [\<lparr>tu_id = ''enforcer-view-1'', tu_name = ''either-view'', tu_input = [(''path'', JStr ''src/App.tsx'')]\<rparr>,
       \<lparr>tu_id = ''t1'', tu_name = ''either-line-replace'',
         tu_input = [(''path'', JStr ''src/App.tsx''), (''needle'', JStr ''x'')]\<rparr>])"
    by (simp add: enf_eval)
  from enforcer_injection [OF h] obtain chunks where
    len: "length chunks = length ?blocks" and
    nth: "\<forall>i<length ?blocks.
        (case edit_target (?blocks ! i) of
           Some p \<Rightarrow>
             chunks ! i =
               (if \<exists>r \<in> set (concat (take i chunks)). is_read_of p r then []
                else [injected_read ((\<lambda>n. ''enforcer-view-1'') (length (concat (take i chunks)))) p])
               @ [annotate (?blocks ! i)]
         | None \<Rightarrow> chunks ! i = [annotate (?blocks ! i)]) \<and>
        (\<not> is_line_replace (?blocks ! i) \<longrightarrow> chunks ! i = [?blocks ! i])"
    by blast
  have c0: "chunks ! 0 = [TextBlock ''plan'']"
    using nth [rule_format, of 0] by (simp add: is_line_replace_def)
  have c1: "chunks ! 1 = [injected_read ''enforcer-view-1'' ''src/App.tsx'',
                       ToolUseBlock ''t1'' ''either-line-replace''
                         [(''path'', JStr ''src/App.tsx''), (''needle'', JStr ''x'')]]"
  proof -
    have t1: "take 1 chunks = [chunks ! 0]"
      using len by (cases chunks) auto
    show ?thesis
      using nth [rule_format, of 1] c0 t1
      by (simp add: edit_target_def annotate_def is_read_of_def field_def)
  qed
  have ex: "\<exists>chunks. length chunks = 2 \<and>
         chunks ! 0 = [TextBlock ''plan''] \<and>
         chunks ! 1 = [injected_read ''enforcer-view-1'' ''src/App.tsx'',
                       ToolUseBlock ''t1'' ''either-line-replace''
                         [(''path'', JStr ''src/App.tsx''), (''needle'', JStr ''x'')]]"
    using len c0 c1 by (intro exI [of _ chunks]) simp
  show ?thesis by (rule conjI [OF h ex])
qed

lemma inject_split:
  "injectReadBeforeWriteBlocks newId (pre @ b # post) =
     (fst (injectReadBeforeWriteBlocks newId pre)
        @ enf_chunk newId (foldl (enf_iter newId) enf_init pre) b
        @ concat (enf_chunks newId (enf_iter newId (foldl (enf_iter newId) enf_init pre) b) post),
      snd (injectReadBeforeWriteBlocks newId pre)
        @ tool_uses_of (enf_chunk newId (foldl (enf_iter newId) enf_init pre) b)
        @ tool_uses_of (concat (enf_chunks newId (enf_iter newId (foldl (enf_iter newId) enf_init pre) b) post)))"
  by (simp add: injectReadBeforeWriteBlocks_def Let_def foldl_enf_out foldl_enf_tus
      enf_iter_out enf_iter_tus)

lemma enf_iter_seen:
  "p \<in> seenReadForPath (enf_iter newId s b) \<Longrightarrow>
     p \<in> seenReadForPath s \<or> is_read_of p b \<or> edit_target b = Some p"
  by (cases b)
     (auto simp: is_read_of_def edit_target_def Let_def pushAndCollect_seen
       split: option.splits json.splits if_splits)

lemma foldl_enf_seen:
  "p \<in> seenReadForPath (foldl (enf_iter newId) s bs) \<Longrightarrow>
     p \<in> seenReadForPath s \<or> (\<exists>b \<in> set bs. is_read_of p b \<or> edit_target b = Some p)"
proof (induction bs arbitrary: s)
  case Nil
  then show ?case by simp
next
  case (Cons b bs)
  from Cons.IH [of "enf_iter newId s b"] Cons.prems
  have "p \<in> seenReadForPath (enf_iter newId s b) \<or> (\<exists>b \<in> set bs. is_read_of p b \<or> edit_target b = Some p)"
    by simp
  then show ?case using enf_iter_seen [of p newId s b] by auto
qed

lemma enf_chunk_write:
  "enf_chunk newId s (ToolUseBlock i ''either-write'' inp) = [ToolUseBlock i ''either-write'' inp]"
  by (simp add: enf_chunk_def edit_target_def annotate_def)

lemma enf_chunk_edit:
  "enf_chunk newId s (ToolUseBlock i ''either-line-replace'' inp) =
     (case field inp ''path'' of
        Some (JStr p) \<Rightarrow> if p \<noteq> [] \<and> p \<notin> seenReadForPath s
                         then [injected_read (newId (length (out s))) p] else []
      | _ \<Rightarrow> [])
     @ [ToolUseBlock i ''either-line-replace''
          (if truthy (field inp ''needle'') then inp else add_warning inp)]"
  by (auto simp: enf_chunk_def edit_target_def annotate_def split: option.splits json.splits)

text \<open>
  C6. An \<open>either-write\<close> block anywhere in a turn is emitted as it is, with nothing
  injected before it, and does not add its path to the set of paths read. The enforcer
  is a function of one turn's blocks alone and starts from the empty set
  (\<open>enf_init\<close>), so nothing of an earlier turn is remembered: in any turn whose
  blocks before an \<open>either-line-replace\<close> of \<open>p\<close> contain no \<open>either-view\<close> of \<open>p\<close> and
  no earlier edit of \<open>p\<close> (they may well create \<open>p\<close>), a read of \<open>p\<close> is injected
  immediately before that edit, in the content blocks and in the tool list.
\<close>

theorem create_passes_through:
  assumes "field einp ''path'' = Some (JStr p)" and "p \<noteq> []"
    and "\<forall>b \<in> set pre. \<not> is_read_of p b \<and> edit_target b \<noteq> Some p"
  shows "(\<exists>rest restT.
            injectReadBeforeWriteBlocks newId1 (pre1 @ ToolUseBlock wid ''either-write'' winp # post1) =
              (fst (injectReadBeforeWriteBlocks newId1 pre1) @ [ToolUseBlock wid ''either-write'' winp] @ rest,
               snd (injectReadBeforeWriteBlocks newId1 pre1)
                 @ [\<lparr>tu_id = wid, tu_name = ''either-write'', tu_input = winp\<rparr>] @ restT))
       \<and> seenReadForPath (enf_iter newId1 s (ToolUseBlock wid ''either-write'' winp)) = seenReadForPath s
       \<and> (\<exists>rest restT.
            injectReadBeforeWriteBlocks newId2 (pre @ ToolUseBlock eid ''either-line-replace'' einp # post) =
              (fst (injectReadBeforeWriteBlocks newId2 pre)
                 @ [injected_read (newId2 (length (fst (injectReadBeforeWriteBlocks newId2 pre)))) p,
                    annotate (ToolUseBlock eid ''either-line-replace'' einp)] @ rest,
               snd (injectReadBeforeWriteBlocks newId2 pre)
                 @ tool_uses_of [injected_read (newId2 (length (fst (injectReadBeforeWriteBlocks newId2 pre)))) p,
                    annotate (ToolUseBlock eid ''either-line-replace'' einp)] @ restT))
       \<and> seenReadForPath enf_init = {}"
proof (intro conjI)
  show "seenReadForPath enf_init = {}"
    by (simp add: enf_init_def)
next
  show "\<exists>rest restT.
            injectReadBeforeWriteBlocks newId1 (pre1 @ ToolUseBlock wid ''either-write'' winp # post1) =
              (fst (injectReadBeforeWriteBlocks newId1 pre1) @ [ToolUseBlock wid ''either-write'' winp] @ rest,
               snd (injectReadBeforeWriteBlocks newId1 pre1)
                 @ [\<lparr>tu_id = wid, tu_name = ''either-write'', tu_input = winp\<rparr>] @ restT)"
    by (simp add: inject_split enf_chunk_write)
next
  show "seenReadForPath (enf_iter newId1 s (ToolUseBlock wid ''either-write'' winp)) = seenReadForPath s"
    by (simp add: READ_TOOL_def WRITE_TOOLS_def)
next
  let ?s = "foldl (enf_iter newId2) enf_init pre"
  have "p \<notin> seenReadForPath ?s"
    using foldl_enf_seen [of p newId2 enf_init pre] assms(3) by (auto simp: enf_init_def)
  then have "enf_chunk newId2 ?s (ToolUseBlock eid ''either-line-replace'' einp) =
      [injected_read (newId2 (length (out ?s))) p, annotate (ToolUseBlock eid ''either-line-replace'' einp)]"
    using assms(1,2) by (simp add: enf_chunk_def edit_target_def)
  moreover have "out ?s = fst (injectReadBeforeWriteBlocks newId2 pre)"
    by (simp add: injectReadBeforeWriteBlocks_def Let_def)
  ultimately show "\<exists>rest restT.
            injectReadBeforeWriteBlocks newId2 (pre @ ToolUseBlock eid ''either-line-replace'' einp # post) =
              (fst (injectReadBeforeWriteBlocks newId2 pre)
                 @ [injected_read (newId2 (length (fst (injectReadBeforeWriteBlocks newId2 pre)))) p,
                    annotate (ToolUseBlock eid ''either-line-replace'' einp)] @ rest,
               snd (injectReadBeforeWriteBlocks newId2 pre)
                 @ tool_uses_of [injected_read (newId2 (length (fst (injectReadBeforeWriteBlocks newId2 pre)))) p,
                    annotate (ToolUseBlock eid ''either-line-replace'' einp)] @ restT)"
    by (simp add: inject_split)
qed

lemma field_add_warning:
  "field (add_warning inp) k =
     (if k = ''_enforcerWarning'' then Some (JStr ENFORCER_WARNING) else field inp k)"
  by (simp add: field_def add_warning_def update_conv)

text \<open>
  C10, as amended. An \<open>either-line-replace\<close> block whose \<open>needle\<close> is absent or falsy
  (empty string, null, false, zero) is emitted with \<open>_enforcerWarning\<close> added to its input
  and every other input field as it was, whether or not a read was injected before it;
  a block whose \<open>needle\<close> is truthy is emitted with its input unchanged.
\<close>

theorem needle_annotation:
  "(\<exists>inj rest restT.
      injectReadBeforeWriteBlocks newId (pre @ ToolUseBlock i ''either-line-replace'' inp # post) =
        (fst (injectReadBeforeWriteBlocks newId pre) @ inj
           @ [ToolUseBlock i ''either-line-replace''
                (if truthy (field inp ''needle'') then inp else add_warning inp)] @ rest,
         snd (injectReadBeforeWriteBlocks newId pre) @ tool_uses_of inj
           @ [\<lparr>tu_id = i, tu_name = ''either-line-replace'',
                tu_input = (if truthy (field inp ''needle'') then inp else add_warning inp)\<rparr>] @ restT)
      \<and> (inj = [] \<or> (\<exists>p. inj = [injected_read (newId (length (fst (injectReadBeforeWriteBlocks newId pre)))) p])))
   \<and> field (add_warning inp) ''_enforcerWarning'' = Some (JStr ENFORCER_WARNING)
   \<and> (\<forall>k. k \<noteq> ''_enforcerWarning'' \<longrightarrow> field (add_warning inp) k = field inp k)"
proof (intro conjI)
  let ?s = "foldl (enf_iter newId) enf_init pre"
  let ?E = "ToolUseBlock i ''either-line-replace'' (if truthy (field inp ''needle'') then inp else add_warning inp)"
  define inj where "inj = (case field inp ''path'' of
        Some (JStr p) \<Rightarrow> if p \<noteq> [] \<and> p \<notin> seenReadForPath ?s
                         then [injected_read (newId (length (out ?s))) p] else []
      | _ \<Rightarrow> [])"
  have c: "enf_chunk newId ?s (ToolUseBlock i ''either-line-replace'' inp) = inj @ [?E]"
    unfolding inj_def by (rule enf_chunk_edit)
  have inj: "inj = [] \<or> (\<exists>p. inj = [injected_read (newId (length (out ?s))) p])"
    unfolding inj_def by (auto split: option.splits json.splits)
  have o: "out ?s = fst (injectReadBeforeWriteBlocks newId pre)"
    by (simp add: injectReadBeforeWriteBlocks_def Let_def)
  show "\<exists>inj rest restT.
      injectReadBeforeWriteBlocks newId (pre @ ToolUseBlock i ''either-line-replace'' inp # post) =
        (fst (injectReadBeforeWriteBlocks newId pre) @ inj
           @ [ToolUseBlock i ''either-line-replace''
                (if truthy (field inp ''needle'') then inp else add_warning inp)] @ rest,
         snd (injectReadBeforeWriteBlocks newId pre) @ tool_uses_of inj
           @ [\<lparr>tu_id = i, tu_name = ''either-line-replace'',
                tu_input = (if truthy (field inp ''needle'') then inp else add_warning inp)\<rparr>] @ restT)
      \<and> (inj = [] \<or> (\<exists>p. inj = [injected_read (newId (length (fst (injectReadBeforeWriteBlocks newId pre)))) p]))"
    apply (rule exI [of _ inj])
    using inj o c
    apply (simp add: inject_split tool_uses_of_append)
    done
qed (simp_all add: field_add_warning)

text \<open>
  C10 as stated fails for an input that has a \<open>needle\<close> field holding the empty string:
  the field is there, yet the input is changed. In the same turn the path was read
  explicitly, so no read is injected although the warning says so.
\<close>

theorem needle_annotation_counterexample:
  "field [(''path'', JStr ''a.ts''), (''needle'', JStr '''')] ''needle'' \<noteq> None \<and>
   injectReadBeforeWriteBlocks (\<lambda>n. ''enforcer-view-1'')
     [ToolUseBlock ''t0'' ''either-view'' [(''path'', JStr ''a.ts'')],
      ToolUseBlock ''t1'' ''either-line-replace'' [(''path'', JStr ''a.ts''), (''needle'', JStr '''')]]
   = ([ToolUseBlock ''t0'' ''either-view'' [(''path'', JStr ''a.ts'')],
       ToolUseBlock ''t1'' ''either-line-replace''
         [(''path'', JStr ''a.ts''), (''needle'', JStr ''''),
          (''_enforcerWarning'', JStr ''No `needle` provided; injected a read to reduce risk.'')]],
      [\<lparr>tu_id = ''t0'', tu_name = ''either-view'', tu_input = [(''path'', JStr ''a.ts'')]\<rparr>,
       \<lparr>tu_id = ''t1'', tu_name = ''either-line-replace'',
         tu_input = [(''path'', JStr ''a.ts''), (''needle'', JStr ''''),
          (''_enforcerWarning'', JStr ''No `needle` provided; injected a read to reduce risk.'')]\<rparr>])"
  by (simp add: enf_eval)

text \<open>
  Scenario B of the specification: a turn that creates \<open>src/App.tsx\<close>, then a turn
  that edits it without reading it.
\<close>

theorem create_passes_through_witness:
  "injectReadBeforeWriteBlocks (\<lambda>n. ''enforcer-view-1'')
       [ToolUseBlock ''t1'' ''either-write'' [(''path'', JStr ''src/App.tsx''), (''content'', JStr ''x'')]]
     = ([ToolUseBlock ''t1'' ''either-write'' [(''path'', JStr ''src/App.tsx''), (''content'', JStr ''x'')]],
        [\<lparr>tu_id = ''t1'', tu_name = ''either-write'',
           tu_input = [(''path'', JStr ''src/App.tsx''), (''content'', JStr ''x'')]\<rparr>])
   \<and> injectReadBeforeWriteBlocks (\<lambda>n. ''enforcer-view-2'')
       [ToolUseBlock ''t2'' ''either-line-replace'' [(''path'', JStr ''src/App.tsx''), (''needle'', JStr ''x'')]]
     = ([injected_read ''enforcer-view-2'' ''src/App.tsx'',
         ToolUseBlock ''t2'' ''either-line-replace'' [(''path'', JStr ''src/App.tsx''), (''needle'', JStr ''x'')]],
        [\<lparr>tu_id = ''enforcer-view-2'', tu_name = ''either-view'', tu_input = [(''path'', JStr ''src/App.tsx'')]\<rparr>,
         \<lparr>tu_id = ''t2'', tu_name = ''either-line-replace'',
           tu_input = [(''path'', JStr ''src/App.tsx''), (''needle'', JStr ''x'')]\<rparr>])"
proof -
  let ?einp = "[(''path'', JStr ''src/App.tsx''), (''needle'', JStr ''x'')]"
  have h1: "field ?einp ''path'' = Some (JStr ''src/App.tsx'')"
    by (simp add: field_def)
  have h2: "''src/App.tsx'' \<noteq> []" by simp
  have h3: "\<forall>b \<in> set []. \<not> is_read_of ''src/App.tsx'' b \<and> edit_target b \<noteq> Some ''src/App.tsx''"
    by simp
  note t = create_passes_through [OF h1 h2 h3, of "\<lambda>n. ''enforcer-view-1''" "[]" "''t1''"
      "[(''path'', JStr ''src/App.tsx''), (''content'', JStr ''x'')]" "[]" enf_init
      "\<lambda>n. ''enforcer-view-2''" "''t2''" "[]"]
  have nil: "injectReadBeforeWriteBlocks (\<lambda>n. ''enforcer-view-1'') [] = ([], [])"
     "injectReadBeforeWriteBlocks (\<lambda>n. ''enforcer-view-2'') [] = ([], [])"
    by (simp_all add: injectReadBeforeWriteBlocks_def enf_init_def)
  from t obtain r1 rt1 r2 rt2 where
    a: "injectReadBeforeWriteBlocks (\<lambda>n. ''enforcer-view-1'')
          [ToolUseBlock ''t1'' ''either-write'' [(''path'', JStr ''src/App.tsx''), (''content'', JStr ''x'')]]
        = ([ToolUseBlock ''t1'' ''either-write'' [(''path'', JStr ''src/App.tsx''), (''content'', JStr ''x'')]] @ r1,
           [\<lparr>tu_id = ''t1'', tu_name = ''either-write'',
              tu_input = [(''path'', JStr ''src/App.tsx''), (''content'', JStr ''x'')]\<rparr>] @ rt1)"
    and b: "injectReadBeforeWriteBlocks (\<lambda>n. ''enforcer-view-2'') [ToolUseBlock ''t2'' ''either-line-replace'' ?einp]
        = ([injected_read ''enforcer-view-2'' ''src/App.tsx'',
            annotate (ToolUseBlock ''t2'' ''either-line-replace'' ?einp)] @ r2,
           tool_uses_of [injected_read ''enforcer-view-2'' ''src/App.tsx'',
            annotate (ToolUseBlock ''t2'' ''either-line-replace'' ?einp)] @ rt2)"
    by (auto simp: nil)
  have r1: "r1 = [] \<and> rt1 = []"
    using a by (simp add: enf_eval)
  have r2: "r2 = [] \<and> rt2 = []"
    using b by (simp add: enf_eval injected_read_def annotate_def)
  show ?thesis
    using a b r1 r2 by (simp add: injected_read_def annotate_def field_def READ_TOOL_def)
qed

text \<open>
  The annotation at an edit without a needle whose path was read explicitly in the same
  turn: nothing is injected, the warning is added all the same.
\<close>

theorem needle_annotation_witness:
  "(\<exists>inj rest restT.
      injectReadBeforeWriteBlocks (\<lambda>n. ''enforcer-view-1'')
        ([ToolUseBlock ''t0'' ''either-view'' [(''path'', JStr ''a.ts'')]]
          @ ToolUseBlock ''t1'' ''either-line-replace'' [(''path'', JStr ''a.ts'')] # []) =
        ([ToolUseBlock ''t0'' ''either-view'' [(''path'', JStr ''a.ts'')]] @ inj
           @ [ToolUseBlock ''t1'' ''either-line-replace''
                [(''path'', JStr ''a.ts''), (''_enforcerWarning'', JStr ENFORCER_WARNING)]] @ rest,
         [\<lparr>tu_id = ''t0'', tu_name = ''either-view'', tu_input = [(''path'', JStr ''a.ts'')]\<rparr>] @ tool_uses_of inj
           @ [\<lparr>tu_id = ''t1'', tu_name = ''either-line-replace'',
                tu_input = [(''path'', JStr ''a.ts''), (''_enforcerWarning'', JStr ENFORCER_WARNING)]\<rparr>] @ restT))
   \<and> field (add_warning [(''path'', JStr ''a.ts'')]) ''path'' = Some (JStr ''a.ts'')
   \<and> injectReadBeforeWriteBlocks (\<lambda>n. ''enforcer-view-1'')
        [ToolUseBlock ''t0'' ''either-view'' [(''path'', JStr ''a.ts'')],
         ToolUseBlock ''t1'' ''either-line-replace'' [(''path'', JStr ''a.ts'')]] =
        ([ToolUseBlock ''t0'' ''either-view'' [(''path'', JStr ''a.ts'')],
          ToolUseBlock ''t1'' ''either-line-replace''
                [(''path'', JStr ''a.ts''), (''_enforcerWarning'', JStr ENFORCER_WARNING)]],
         [\<lparr>tu_id = ''t0'', tu_name = ''either-view'', tu_input = [(''path'', JStr ''a.ts'')]\<rparr>,
          \<lparr>tu_id = ''t1'', tu_name = ''either-line-replace'',
                tu_input = [(''path'', JStr ''a.ts''), (''_enforcerWarning'', JStr ENFORCER_WARNING)]\<rparr>])"
proof -
  note t = needle_annotation [of "\<lambda>n. ''enforcer-view-1''"
      "[ToolUseBlock ''t0'' ''either-view'' [(''path'', JStr ''a.ts'')]]" "''t1''"
      "[(''path'', JStr ''a.ts'')]" "[]"]
  have pre: "injectReadBeforeWriteBlocks (\<lambda>n. ''enforcer-view-1'')
       [ToolUseBlock ''t0'' ''either-view'' [(''path'', JStr ''a.ts'')]]
     = ([ToolUseBlock ''t0'' ''either-view'' [(''path'', JStr ''a.ts'')]],
        [\<lparr>tu_id = ''t0'', tu_name = ''either-view'', tu_input = [(''path'', JStr ''a.ts'')]\<rparr>])"
    by (simp add: enf_eval)
  have nd: "\<not> truthy (field [(''path'', JStr ''a.ts'')] ''needle'')"
    by (simp add: field_def)
  have aw: "add_warning [(''path'', JStr ''a.ts'')] =
      [(''path'', JStr ''a.ts''), (''_enforcerWarning'', JStr ENFORCER_WARNING)]"
    by (simp add: add_warning_def)
  have 1: "\<exists>inj rest restT.
      injectReadBeforeWriteBlocks (\<lambda>n. ''enforcer-view-1'')
        ([ToolUseBlock ''t0'' ''either-view'' [(''path'', JStr ''a.ts'')]]
          @ ToolUseBlock ''t1'' ''either-line-replace'' [(''path'', JStr ''a.ts'')] # []) =
        ([ToolUseBlock ''t0'' ''either-view'' [(''path'', JStr ''a.ts'')]] @ inj
           @ [ToolUseBlock ''t1'' ''either-line-replace''
                [(''path'', JStr ''a.ts''), (''_enforcerWarning'', JStr ENFORCER_WARNING)]] @ rest,
         [\<lparr>tu_id = ''t0'', tu_name = ''either-view'', tu_input = [(''path'', JStr ''a.ts'')]\<rparr>] @ tool_uses_of inj
           @ [\<lparr>tu_id = ''t1'', tu_name = ''either-line-replace'',
                tu_input = [(''path'', JStr ''a.ts''), (''_enforcerWarning'', JStr ENFORCER_WARNING)]\<rparr>] @ restT)"
    using t [THEN conjunct1] unfolding pre fst_conv snd_conv if_not_P [OF nd] aw by blast
  have 2: "field (add_warning [(''path'', JStr ''a.ts'')]) ''path'' = Some (JStr ''a.ts'')"
    using t [THEN conjunct2, THEN conjunct2] by (simp add: field_def)
  have 3: "injectReadBeforeWriteBlocks (\<lambda>n. ''enforcer-view-1'')
        [ToolUseBlock ''t0'' ''either-view'' [(''path'', JStr ''a.ts'')],
         ToolUseBlock ''t1'' ''either-line-replace'' [(''path'', JStr ''a.ts'')]] =
        ([ToolUseBlock ''t0'' ''either-view'' [(''path'', JStr ''a.ts'')],
          ToolUseBlock ''t1'' ''either-line-replace''
                [(''path'', JStr ''a.ts''), (''_enforcerWarning'', JStr ENFORCER_WARNING)]],
         [\<lparr>tu_id = ''t0'', tu_name = ''either-view'', tu_input = [(''path'', JStr ''a.ts'')]\<rparr>,
          \<lparr>tu_id = ''t1'', tu_name = ''either-line-replace'',
                tu_input = [(''path'', JStr ''a.ts''), (''_enforcerWarning'', JStr ENFORCER_WARNING)]\<rparr>])"
    by (simp add: injectReadBeforeWriteBlocks_def enf_init_def READ_TOOL_def WRITE_TOOLS_def
        add_warning_def field_def Let_def)
  show ?thesis using 1 2 3 by blast
qed

section \<open>Properties of the validator\<close>

lemma validate_message_Inl:
  "validate_message (length h) i (h ! i) = Inl e \<longleftrightarrow> shape_violation h i \<and> e = violation_error h i"
  by (auto simp: validate_message_def shape_violation_def violation_error_def split: content.splits)

lemma server_ids_set: "i \<in> set (server_tool_use_ids bs) \<longleftrightarrow> ServerToolUse i \<in> set bs"
  by (induction bs rule: server_tool_use_ids.induct) auto

lemma web_ids_set: "i \<in> set (web_search_result_ids bs) \<longleftrightarrow> WebSearchToolResult i \<in> set bs"
  by (induction bs rule: web_search_result_ids.induct) auto

lemma validate_message_Inr:
  "validate_message (length h) i (h ! i) = Inr ws \<Longrightarrow>
     \<not> shape_violation h i \<and> (\<forall>sid. (i, sid) \<in> set ws \<longleftrightarrow> unpaired_server_tool_use h i sid)"
  by (auto simp: validate_message_def shape_violation_def unpaired_server_tool_use_def
        server_ids_set web_ids_set split: content.splits if_splits)

text \<open>The loop from index \<open>k\<close> on, over the messages from \<open>k\<close> on.\<close>

lemma validate_loop_None:
  "k \<le> length h \<Longrightarrow> validate_loop (length h) k (drop k h) = (ws, None) \<Longrightarrow>
     (\<forall>i. k \<le> i \<and> i < length h \<longrightarrow> \<not> shape_violation h i \<and>
        (\<forall>sid. unpaired_server_tool_use h i sid \<longrightarrow> (i, sid) \<in> set ws))"
proof (induction "length h - k" arbitrary: k ws)
  case 0
  then show ?case by auto
next
  case (Suc n)
  then have k: "k < length h" by simp
  then have d: "drop k h = h ! k # drop (Suc k) h" by (simp add: Cons_nth_drop_Suc)
  from Suc.prems(2) d obtain ws1 ws2 where
    m: "validate_message (length h) k (h ! k) = Inr ws1" and
    r: "validate_loop (length h) (Suc k) (drop (Suc k) h) = (ws2, None)" and
    w: "ws = ws1 @ ws2"
    by (auto split: sum.splits prod.splits)
  have n: "n = length h - Suc k" using Suc.hyps(2) by simp
  have ih: "\<forall>i. Suc k \<le> i \<and> i < length h \<longrightarrow> \<not> shape_violation h i \<and>
        (\<forall>sid. unpaired_server_tool_use h i sid \<longrightarrow> (i, sid) \<in> set ws2)"
    using Suc.hyps(1) [OF n _ r] k by simp
  show ?case
  proof (intro allI impI)
    fix i assume i: "k \<le> i \<and> i < length h"
    show "\<not> shape_violation h i \<and> (\<forall>sid. unpaired_server_tool_use h i sid \<longrightarrow> (i, sid) \<in> set ws)"
    proof (cases "i = k")
      case True
      then show ?thesis using validate_message_Inr [OF m] w by auto
    next
      case False
      then have "Suc k \<le> i \<and> i < length h" using i by simp
      then show ?thesis using ih w by auto
    qed
  qed
qed

lemma validate_loop_Some:
  "k \<le> length h \<Longrightarrow> validate_loop (length h) k (drop k h) = (ws, Some e) \<Longrightarrow>
     (\<exists>j. k \<le> j \<and> j < length h \<and> shape_violation h j \<and> e = violation_error h j \<and>
        (\<forall>i. k \<le> i \<and> i < j \<longrightarrow> \<not> shape_violation h i \<and>
           (\<forall>sid. unpaired_server_tool_use h i sid \<longrightarrow> (i, sid) \<in> set ws)))"
proof (induction "length h - k" arbitrary: k ws)
  case 0
  then show ?case by auto
next
  case (Suc n)
  then have k: "k < length h" by simp
  then have d: "drop k h = h ! k # drop (Suc k) h" by (simp add: Cons_nth_drop_Suc)
  show ?case
  proof (cases "validate_message (length h) k (h ! k)")
    case (Inl e')
    then have "e' = e" using Suc.prems(2) d by simp
    then have "shape_violation h k \<and> e = violation_error h k"
      using Inl validate_message_Inl [of h k e'] by simp
    then show ?thesis using k by (intro exI [of _ k]) auto
  next
    case (Inr ws1)
    from Suc.prems(2) d Inr obtain ws2 where
      r: "validate_loop (length h) (Suc k) (drop (Suc k) h) = (ws2, Some e)" and
      w: "ws = ws1 @ ws2"
      by (auto split: prod.splits)
    have n: "n = length h - Suc k" using Suc.hyps(2) by simp
    from Suc.hyps(1) [OF n _ r] k obtain j where
      j: "Suc k \<le> j" "j < length h" "shape_violation h j" "e = violation_error h j" and
      b: "\<forall>i. Suc k \<le> i \<and> i < j \<longrightarrow> \<not> shape_violation h i \<and>
           (\<forall>sid. unpaired_server_tool_use h i sid \<longrightarrow> (i, sid) \<in> set ws2)"
      by auto
    have "\<forall>i. k \<le> i \<and> i < j \<longrightarrow> \<not> shape_violation h i \<and>
           (\<forall>sid. unpaired_server_tool_use h i sid \<longrightarrow> (i, sid) \<in> set ws)"
    proof (intro allI impI)
      fix i assume i: "k \<le> i \<and> i < j"
      show "\<not> shape_violation h i \<and> (\<forall>sid. unpaired_server_tool_use h i sid \<longrightarrow> (i, sid) \<in> set ws)"
      proof (cases "i = k")
        case True
        then show ?thesis using validate_message_Inr [OF Inr] w by auto
      next
        case False
        then have "Suc k \<le> i \<and> i < j" using i by simp
        then show ?thesis using b w by auto
      qed
    qed
    then show ?thesis using j by (intro exI [of _ j]) simp
  qed
qed

section \<open>Properties of the turn loop\<close>

subsection \<open>Calls of the model client\<close>

lemma model_calls_append: "model_calls (a @ b) = model_calls a + model_calls b"
  by (simp add: model_calls_def)

lemma model_calls_Nil: "model_calls [] = 0"
  by (simp add: model_calls_def)

lemma model_calls_Cons: "model_calls (e # es) = (if e = ModelCall then 1 else 0) + model_calls es"
  by (simp add: model_calls_def)

lemmas mc_simps = model_calls_append model_calls_Nil model_calls_Cons

lemma phases_of_append: "phases_of (a @ b) = phases_of a @ phases_of b"
  by (induction a rule: phases_of.induct) auto

lemma trace_emit: "trace (emit es s) = trace s @ es"
  by (simp add: emit_def)

lemma mc_on_delta: "model_calls (trace (snd (on_delta cb hs d))) = model_calls (trace (snd hs))"
  by (cases hs) (simp add: on_delta_def emit_def model_calls_def Let_def)

lemma mc_foldl_on_delta:
  "model_calls (trace (snd (foldl (on_delta cb) hs ds))) = model_calls (trace (snd hs))"
  by (induction ds arbitrary: hs) (simp_all add: mc_on_delta)

lemma mc_thinking_transition:
  "model_calls (trace (thinking_transition cb n tus s)) = model_calls (trace s)"
  by (simp add: thinking_transition_def emit_def model_calls_def filter_map o_def)

lemma mc_push_assistant: "model_calls (trace (push_assistant bs s)) = model_calls (trace s)"
  by (simp add: push_assistant_def)

lemma mc_finish: "model_calls (trace (finish_without_tools env cb t s)) = model_calls (trace s)"
  by (simp add: finish_without_tools_def emit_def model_calls_def Let_def filter_map o_def)

lemma mc_track_file_op:
  "model_calls (trace (fst (track_file_op cb tu sn))) = model_calls (trace (fst sn))"
  by (cases sn) (simp add: track_file_op_def emit_def model_calls_def Let_def split: option.splits)

lemma mc_completion_events: "model_calls (completion_events cb tu ops) = 0"
  by (simp add: completion_events_def model_calls_def split: option.splits)

lemma mc_exec_tool:
  "model_calls (trace (fst (exec_tool env cb n acc itu))) = model_calls (trace (fst acc))"
proof -
  obtain s ops rs where acc: "acc = (s, ops, rs)" by (cases acc) auto
  obtain i tu where itu: "itu = (i, tu)" by (cases itu) auto
  obtain s1 ops1 where t: "track_file_op cb tu (s, ops) = (s1, ops1)"
    by (cases "track_file_op cb tu (s, ops)") auto
  have "model_calls (trace s1) = model_calls (trace s)"
    using mc_track_file_op [of cb tu "(s, ops)"] t by simp
  then show ?thesis
    by (simp add: acc itu exec_tool_def t Let_def trace_emit mc_simps mc_completion_events)
qed

lemma mc_foldl_exec_tool:
  "model_calls (trace (fst (foldl (exec_tool env cb n) acc itus))) = model_calls (trace (fst acc))"
  by (induction itus arbitrary: acc) (simp_all add: mc_exec_tool)

lemma mc_run_tools:
  "model_calls (trace (snd (run_tools env cb n tus s))) = model_calls (trace s)"
proof (cases "dryRun env")
  case True
  then show ?thesis by (simp add: run_tools_def)
next
  case False
  obtain s1 ops rs where f: "foldl (exec_tool env cb n) (s, Map.empty, []) (zip [0..<length tus] tus) = (s1, ops, rs)"
    by (cases "foldl (exec_tool env cb n) (s, Map.empty, []) (zip [0..<length tus] tus)") auto
  have "model_calls (trace s1) = model_calls (trace s)"
    using mc_foldl_exec_tool [of env cb n "(s, Map.empty, [])" "zip [0..<length tus] tus"] f by simp
  then show ?thesis
    using False by (simp add: run_tools_def f Let_def split: option.splits)
qed

lemma mc_after_response:
  "model_calls (trace (snd (after_response env cb n s resp))) = model_calls (trace s)"
proof -
  obtain bs tus where e: "injectReadBeforeWriteBlocks (injectedId env n) (r_content resp) = (bs, tus)"
    by (cases "injectReadBeforeWriteBlocks (injectedId env n) (r_content resp)") auto
  show ?thesis
  proof (cases "tus = []")
    case True
    then show ?thesis
      by (simp add: after_response_def e Let_def mc_finish mc_push_assistant mc_thinking_transition)
  next
    case False
    let ?s6 = "(emit (if onPhase cb then [OnPhase CodeWriting] else [])
                 (push_assistant bs (thinking_transition cb (REASONING_STREAM_CHUNK_SIZE env) tus
                    (s\<lparr>totalInputTokens := totalInputTokens s + inputTokens resp,
                       totalOutputTokens := totalOutputTokens s + outputTokens resp\<rparr>))))
               \<lparr>justExecutedTools := True, hasExecutedTools := True\<rparr>"
    have m6: "model_calls (trace ?s6) = model_calls (trace s)"
      by (simp add: trace_emit mc_simps mc_push_assistant mc_thinking_transition)
    obtain r s7 where r: "run_tools env cb n tus ?s6 = (r, s7)"
      by (cases "run_tools env cb n tus ?s6") auto
    have "model_calls (trace s7) = model_calls (trace s)"
      using mc_run_tools [of env cb n tus ?s6] r m6 by simp
    then show ?thesis
      using False by (simp add: after_response_def e Let_def r split: option.splits)
  qed
qed

lemma mc_turn:
  "model_calls (trace (snd (turn env cb n s))) \<le> Suc (model_calls (trace s))"
  by (simp add: turn_def Let_def mc_after_response mc_foldl_on_delta trace_emit mc_simps
        split: option.splits prod.splits)

lemma mc_run_loop:
  "model_calls (trace (snd (run_loop env cb n s))) \<le> model_calls (trace s) + (MAX_AGENT_TURNS env - n)"
proof (induction env cb n s rule: run_loop.induct)
  case (1 env cb turnCount s)
  show ?case
  proof (cases "turnCount < MAX_AGENT_TURNS env")
    case False
    then show ?thesis by (simp add: run_loop.simps [of env cb turnCount s])
  next
    case True
    obtain oc s' where t: "turn env cb (Suc turnCount) s = (oc, s')"
      by (cases "turn env cb (Suc turnCount) s") auto
    have m: "model_calls (trace s') \<le> Suc (model_calls (trace s))"
      using mc_turn [of env cb "Suc turnCount" s] t by simp
    show ?thesis
    proof (cases oc)
      case Continue
      have "model_calls (trace (snd (run_loop env cb (Suc turnCount) s')))
              \<le> model_calls (trace s') + (MAX_AGENT_TURNS env - Suc turnCount)"
        using "1.IH" [OF True t [symmetric] Continue] .
      then show ?thesis
        using True m t Continue by (simp add: run_loop.simps [of env cb turnCount s])
    next
      case Break
      then show ?thesis
        using True m t by (simp add: run_loop.simps [of env cb turnCount s])
    next
      case (Threw e)
      then show ?thesis
        using True m t by (simp add: run_loop.simps [of env cb turnCount s])
    qed
  qed
qed

text \<open>
  C1. Whatever the model client, the tool runner and the history are, a request calls
  the model client at most \<open>MAX_AGENT_TURNS\<close> times. The loop is the total function
  \<open>run_loop\<close>, whose termination is proved with the measure
  \<open>MAX_AGENT_TURNS - turnCount\<close>: it ends after at most that many iterations.
\<close>

theorem turn_bound:
  "model_calls (trace (snd (processRequest env cb history userMessage))) \<le> MAX_AGENT_TURNS env"
proof -
  obtain r s where l: "run_loop env cb 0 (initial_state history userMessage) = (r, s)"
    by (cases "run_loop env cb 0 (initial_state history userMessage)") auto
  have "model_calls (trace s) \<le> MAX_AGENT_TURNS env"
    using mc_run_loop [of env cb 0 "initial_state history userMessage"] l
    by (simp add: initial_state_def mc_simps)
  then show ?thesis
    by (cases r) (simp_all add: processRequest_def l trace_emit mc_simps)
qed

subsection \<open>The validator in the loop\<close>

lemma error_index_violation: "error_index (violation_error h i) = i"
  by (simp add: violation_error_def split: content.splits)

lemma validate_None:
  "validateConversationHistory h = (ws, None) \<Longrightarrow>
     (\<forall>i<length h. \<not> shape_violation h i \<and>
        (\<forall>sid. unpaired_server_tool_use h i sid \<longrightarrow> (i, sid) \<in> set ws))"
  using validate_loop_None [of 0 h ws] by (simp add: validateConversationHistory_def)

lemma validate_Some:
  "validateConversationHistory h = (ws, Some e) \<Longrightarrow>
     (\<exists>j<length h. shape_violation h j \<and> e = violation_error h j \<and>
        (\<forall>i<j. \<not> shape_violation h i \<and>
           (\<forall>sid. unpaired_server_tool_use h i sid \<longrightarrow> (i, sid) \<in> set ws)))"
  using validate_loop_Some [of 0 h ws e] by (simp add: validateConversationHistory_def)

lemma validate_raises_iff:
  "snd (validateConversationHistory h) \<noteq> None \<longleftrightarrow> (\<exists>i<length h. shape_violation h i)"
proof (cases "validateConversationHistory h")
  case (Pair ws r)
  show ?thesis
  proof (cases r)
    case None
    then show ?thesis using validate_None [of h ws] Pair by auto
  next
    case (Some e)
    then show ?thesis using validate_Some [of h ws e] Pair by auto
  qed
qed

lemma validate_error_first:
  assumes "snd (validateConversationHistory h) = Some e"
  shows "error_index e < length h \<and> shape_violation h (error_index e) \<and>
         e = violation_error h (error_index e) \<and> (\<forall>j<error_index e. \<not> shape_violation h j)"
proof -
  obtain ws where "validateConversationHistory h = (ws, Some e)"
    using assms by (cases "validateConversationHistory h") auto
  from validate_Some [OF this] obtain j where
    j: "j < length h" "shape_violation h j" "e = violation_error h j" "\<forall>i<j. \<not> shape_violation h i"
    by blast
  have "error_index e = j" using j(3) by (simp add: error_index_violation)
  then show ?thesis using j by simp
qed

lemma validate_first_violation:
  assumes "j < length h" and "shape_violation h j" and "\<forall>k<j. \<not> shape_violation h k"
  shows "snd (validateConversationHistory h) = Some (violation_error h j)"
proof -
  have "snd (validateConversationHistory h) \<noteq> None"
    using assms(1,2) validate_raises_iff [of h] by blast
  then obtain e where e: "snd (validateConversationHistory h) = Some e" by auto
  from validate_error_first [OF e] have
    f: "shape_violation h (error_index e)" "e = violation_error h (error_index e)"
       "\<forall>k<error_index e. \<not> shape_violation h k"
    by auto
  have "error_index e = j"
  proof (rule ccontr)
    assume "error_index e \<noteq> j"
    then have "error_index e < j \<or> j < error_index e" by auto
    then show False using f(1,3) assms(2,3) by auto
  qed
  then show ?thesis using e f(2) by simp
qed

lemma turn_invalid:
  "snd (validateConversationHistory (conversationHistory s)) = Some e \<Longrightarrow>
     turn env cb n s = (Threw (HistoryInvalid e), s)"
  by (simp add: turn_def)

lemma mc_turn_valid:
  "snd (validateConversationHistory (conversationHistory s)) = None \<Longrightarrow>
     model_calls (trace (snd (turn env cb n s))) = Suc (model_calls (trace s))"
  by (simp add: turn_def Let_def mc_after_response mc_foldl_on_delta trace_emit mc_simps
        split: option.splits prod.splits)

lemma processRequest_invalid:
  assumes "snd (validateConversationHistory (conversationHistory (initial_state history userMessage))) = Some e"
    and "0 < MAX_AGENT_TURNS env"
  shows "processRequest env cb history userMessage =
           (Inl (HistoryInvalid e), initial_state history userMessage)"
  using assms
  by (simp add: processRequest_def run_loop.simps [of env cb 0] turn_invalid)

text \<open>
  C4. The validator throws exactly when some message of the history has a content that
  is no array, or an empty array without being the last message with role assistant.
  The error thrown is the one of the first such message and carries its index. Every
  iteration of the loop validates the history before it calls the model client, and a
  failed validation ends the request with that error, the model client not being called.
\<close>

theorem validator_raises_exactly:
  "(snd (validateConversationHistory h) \<noteq> None \<longleftrightarrow> (\<exists>i<length h. shape_violation h i))
   \<and> (\<forall>e. snd (validateConversationHistory h) = Some e \<longrightarrow>
         error_index e < length h \<and> shape_violation h (error_index e) \<and>
         e = violation_error h (error_index e) \<and> (\<forall>j<error_index e. \<not> shape_violation h j))
   \<and> (\<forall>e. snd (validateConversationHistory (conversationHistory s)) = Some e \<longrightarrow>
         turn env cb n s = (Threw (HistoryInvalid e), s))
   \<and> (\<forall>e. snd (validateConversationHistory (conversationHistory (initial_state history userMessage))) = Some e
          \<and> 0 < MAX_AGENT_TURNS env \<longrightarrow>
         processRequest env cb history userMessage =
           (Inl (HistoryInvalid e), initial_state history userMessage))"
  using validate_raises_iff [of h] validate_error_first [of h] turn_invalid [of s _ env cb n]
    processRequest_invalid [of history userMessage _ env cb]
  by blast

text \<open>
  C9. Let the assistant message at index \<open>i\<close> hold a \<open>server_tool_use\<close> block with no
  \<open>web_search_tool_result\<close> of the same id. Whether the validator throws is still decided
  by the shapes of the contents alone; it logs the warning \<open>(i, sid)\<close> when it gets as
  far as message \<open>i\<close>; it goes on to the messages after \<open>i\<close>, so that the first shape
  violation there is still thrown; and when the history has no shape violation, the turn
  goes on to call the model client.
\<close>

theorem unpaired_server_tool_use_only_warns:
  assumes "i < length h" and "unpaired_server_tool_use h i sid"
  shows "(snd (validateConversationHistory h) = None \<longleftrightarrow> (\<forall>j<length h. \<not> shape_violation h j))
   \<and> ((\<forall>j\<le>i. \<not> shape_violation h j) \<longrightarrow> (i, sid) \<in> set (fst (validateConversationHistory h)))
   \<and> (\<forall>j. i < j \<and> j < length h \<and> shape_violation h j \<and> (\<forall>k<j. \<not> shape_violation h k) \<longrightarrow>
         snd (validateConversationHistory h) = Some (violation_error h j))
   \<and> ((\<forall>j<length h. \<not> shape_violation h j) \<and> conversationHistory s = h \<longrightarrow>
         (\<forall>e. fst (turn env cb n s) \<noteq> Threw (HistoryInvalid e)) \<and>
         model_calls (trace (snd (turn env cb n s))) = Suc (model_calls (trace s)))"
proof (intro conjI)
  show "snd (validateConversationHistory h) = None \<longleftrightarrow> (\<forall>j<length h. \<not> shape_violation h j)"
    using validate_raises_iff [of h] by blast
next
  show "(\<forall>j\<le>i. \<not> shape_violation h j) \<longrightarrow> (i, sid) \<in> set (fst (validateConversationHistory h))"
  proof
    assume a: "\<forall>j\<le>i. \<not> shape_violation h j"
    obtain ws r where v: "validateConversationHistory h = (ws, r)"
      by (cases "validateConversationHistory h") auto
    show "(i, sid) \<in> set (fst (validateConversationHistory h))"
    proof (cases r)
      case None
      then show ?thesis using validate_None [of h ws] v assms by auto
    next
      case (Some e)
      from validate_Some [of h ws e] v Some obtain j where
        j: "j < length h" "shape_violation h j"
           "\<forall>i<j. \<not> shape_violation h i \<and> (\<forall>sid. unpaired_server_tool_use h i sid \<longrightarrow> (i, sid) \<in> set ws)"
        by auto
      have "i < j" using a j(2) by (meson not_le_imp_less)
      then show ?thesis using j(3) assms(2) v by auto
    qed
  qed
next
  show "\<forall>j. i < j \<and> j < length h \<and> shape_violation h j \<and> (\<forall>k<j. \<not> shape_violation h k) \<longrightarrow>
         snd (validateConversationHistory h) = Some (violation_error h j)"
    using validate_first_violation [of _ h] by blast
next
  show "(\<forall>j<length h. \<not> shape_violation h j) \<and> conversationHistory s = h \<longrightarrow>
         (\<forall>e. fst (turn env cb n s) \<noteq> Threw (HistoryInvalid e)) \<and>
         model_calls (trace (snd (turn env cb n s))) = Suc (model_calls (trace s))"
  proof
    assume a: "(\<forall>j<length h. \<not> shape_violation h j) \<and> conversationHistory s = h"
    then have v: "snd (validateConversationHistory (conversationHistory s)) = None"
      using validate_raises_iff [of h] by auto
    have "\<forall>e. fst (turn env cb n s) \<noteq> Threw (HistoryInvalid e)"
      using v by (auto simp: turn_def Let_def after_response_def split: option.splits prod.splits)
    then show "(\<forall>e. fst (turn env cb n s) \<noteq> Threw (HistoryInvalid e)) \<and>
         model_calls (trace (snd (turn env cb n s))) = Suc (model_calls (trace s))"
      using mc_turn_valid [OF v] by simp
  qed
qed

lemmas validator_eval = validateConversationHistory_def validate_message_def

text \<open>Scenario D of the specification: the request is aborted with the index 1 and the type.\<close>

theorem validator_raises_exactly_witness:
  "snd (validateConversationHistory (conversationHistory (initial_state history_bare_string ''next'')))
     = Some (InvalidContentFormat 1 ''string'')
   \<and> shape_violation (conversationHistory (initial_state history_bare_string ''next'')) 1
   \<and> \<not> shape_violation (conversationHistory (initial_state history_bare_string ''next'')) 0
   \<and> processRequest demo_env all_callbacks history_bare_string ''next''
       = (Inl (HistoryInvalid (InvalidContentFormat 1 ''string'')),
          initial_state history_bare_string ''next'')"
proof -
  let ?h = "conversationHistory (initial_state history_bare_string ''next'')"
  have v: "snd (validateConversationHistory ?h) = Some (InvalidContentFormat 1 ''string'')"
    by (simp add: validator_eval initial_state_def history_bare_string_def)
  have m: "0 < MAX_AGENT_TURNS demo_env"
    by (simp add: demo_env_def)
  note t = validator_raises_exactly [of ?h "initial_state history_bare_string ''next''" demo_env
      all_callbacks 1 history_bare_string "''next''"]
  from t v have a: "shape_violation ?h (error_index (InvalidContentFormat 1 ''string''))
      \<and> (\<forall>j<error_index (InvalidContentFormat 1 ''string''). \<not> shape_violation ?h j)"
    by blast
  from t v m have b: "processRequest demo_env all_callbacks history_bare_string ''next''
       = (Inl (HistoryInvalid (InvalidContentFormat 1 ''string'')),
          initial_state history_bare_string ''next'')"
    by blast
  show ?thesis using v a b by simp
qed

text \<open>
  A history with an unpaired \<open>server_tool_use\<close> at index 1: the warning is logged, nothing
  is thrown and the model client is called.
\<close>

theorem unpaired_server_tool_use_only_warns_witness:
  "unpaired_server_tool_use (conversationHistory (initial_state history_unpaired ''next'')) 1 ''srvtoolu_1''
   \<and> snd (validateConversationHistory (conversationHistory (initial_state history_unpaired ''next''))) = None
   \<and> (1, ''srvtoolu_1'') \<in>
        set (fst (validateConversationHistory (conversationHistory (initial_state history_unpaired ''next''))))
   \<and> model_calls (trace (snd (turn demo_env all_callbacks 1 (initial_state history_unpaired ''next'')))) = 1"
proof -
  let ?s = "initial_state history_unpaired ''next''"
  let ?h = "conversationHistory ?s"
  have i: "1 < length ?h"
    by (simp add: initial_state_def history_unpaired_def)
  have u: "unpaired_server_tool_use ?h 1 ''srvtoolu_1''"
    by (simp add: unpaired_server_tool_use_def initial_state_def history_unpaired_def)
  have n: "\<forall>j<length ?h. \<not> shape_violation ?h j"
    by (simp add: shape_violation_def initial_state_def history_unpaired_def less_Suc_eq)
  note t = unpaired_server_tool_use_only_warns [OF i u, of ?s demo_env all_callbacks 1]
  have a: "snd (validateConversationHistory ?h) = None" using t n by blast
  have b: "(1, ''srvtoolu_1'') \<in> set (fst (validateConversationHistory ?h))"
    using t n i by (meson le_less_trans)
  have c: "model_calls (trace (snd (turn demo_env all_callbacks 1 ?s))) = Suc (model_calls (trace ?s))"
    using t n by blast
  have "model_calls (trace ?s) = 0"
    by (simp add: initial_state_def model_calls_def)
  then show ?thesis using u a b c by simp
qed

subsection \<open>Events of tool execution\<close>





lemma exec_tool_unfold:
  "track_file_op cb tu (s, ops) = (s1, ops1) \<Longrightarrow>
   exec_tool env cb n (s, ops, rs) (i, tu) =
     (emit ((if onToolStart cb \<and> \<not> truthy (file_path tu)
              then [OnToolStart (tu_name tu) (tu_id tu)] else [])
            @ [ToolExec tu] @ completion_events cb tu ops1
            @ (if onToolEnd cb \<and> \<not> truthy (file_path tu)
               then [OnToolEnd (tu_name tu) (tu_id tu)] else [])) s1,
      ops1, rs @ executeTools env n i tu)"
  by (simp add: exec_tool_def Let_def emit_def file_path_def)




















text \<open>The variables that streaming, the thinking transition and the last turn leave alone.\<close>

lemma on_delta_keeps:
  "justExecutedTools (snd (on_delta cb hs d)) = justExecutedTools (snd hs)"
  "hasExecutedTools (snd (on_delta cb hs d)) = hasExecutedTools (snd hs)"
  "conversationHistory (snd (on_delta cb hs d)) = conversationHistory (snd hs)"
  "fileOpsThisRequest (snd (on_delta cb hs d)) = fileOpsThisRequest (snd hs)"
  "filesCreatedThisRequest (snd (on_delta cb hs d)) = filesCreatedThisRequest (snd hs)"
  "isInSummaryPhase (snd (on_delta cb hs d)) = isInSummaryPhase (snd hs)"
  by (cases hs; simp add: on_delta_def emit_def Let_def)+

lemma foldl_on_delta_keeps:
  "justExecutedTools (snd (foldl (on_delta cb) hs ds)) = justExecutedTools (snd hs)"
  "hasExecutedTools (snd (foldl (on_delta cb) hs ds)) = hasExecutedTools (snd hs)"
  "conversationHistory (snd (foldl (on_delta cb) hs ds)) = conversationHistory (snd hs)"
  "fileOpsThisRequest (snd (foldl (on_delta cb) hs ds)) = fileOpsThisRequest (snd hs)"
  "filesCreatedThisRequest (snd (foldl (on_delta cb) hs ds)) = filesCreatedThisRequest (snd hs)"
  "isInSummaryPhase (snd (foldl (on_delta cb) hs ds)) = isInSummaryPhase (snd hs)"
  by (induction ds arbitrary: hs; simp add: on_delta_keeps)+


lemma finish_keeps:
  "justExecutedTools (finish_without_tools env cb t s) = justExecutedTools s"
  "hasExecutedTools (finish_without_tools env cb t s) = hasExecutedTools s"
  "conversationHistory (finish_without_tools env cb t s) = conversationHistory s"
  "fileOpsThisRequest (finish_without_tools env cb t s) = fileOpsThisRequest s"
  "filesCreatedThisRequest (finish_without_tools env cb t s) = filesCreatedThisRequest s"
  "isInThinkingPhase (finish_without_tools env cb t s) = isInThinkingPhase s"
  by (simp_all add: finish_without_tools_def emit_def Let_def)

lemma created_tracked_cong:
  "fileOpsThisRequest s' = fileOpsThisRequest s \<Longrightarrow>
   filesCreatedThisRequest s' = filesCreatedThisRequest s \<Longrightarrow>
   created_tracked s' = created_tracked s"
  by (simp add: created_tracked_def)









subsection \<open>Phases\<close>

lemma phases_of_map_OnReasoning: "phases_of (map OnReasoning xs) = []"
  by (induction xs) auto

lemma phases_of_map_OnDelta: "phases_of (map (OnDelta t) xs) = []"
  by (induction xs) auto

lemmas ph_simps = phases_of_append phases_of_map_OnReasoning phases_of_map_OnDelta

subsection \<open>Phases and flags: tool execution\<close>

lemma track_file_op_quiet:
  "phases_of (trace (fst (track_file_op cb tu sn))) = phases_of (trace (fst sn))"
  "justExecutedTools (fst (track_file_op cb tu sn)) = justExecutedTools (fst sn)"
  "isInThinkingPhase (fst (track_file_op cb tu sn)) = isInThinkingPhase (fst sn)"
  by (cases sn; simp add: track_file_op_def emit_def Let_def ph_simps split: option.splits)+

lemma phases_completion_events: "phases_of (completion_events cb tu ops) = []"
  by (simp add: completion_events_def split: option.splits)

lemma exec_tool_quiet:
  "phases_of (trace (fst (exec_tool env cb n acc itu))) = phases_of (trace (fst acc))"
  "justExecutedTools (fst (exec_tool env cb n acc itu)) = justExecutedTools (fst acc)"
  "isInThinkingPhase (fst (exec_tool env cb n acc itu)) = isInThinkingPhase (fst acc)"
proof -
  obtain s ops rs where acc: "acc = (s, ops, rs)" by (cases acc) auto
  obtain i tu where itu: "itu = (i, tu)" by (cases itu) auto
  obtain s1 ops1 where t: "track_file_op cb tu (s, ops) = (s1, ops1)"
    by (cases "track_file_op cb tu (s, ops)") auto
  have q: "phases_of (trace s1) = phases_of (trace s)" "justExecutedTools s1 = justExecutedTools s"
    "isInThinkingPhase s1 = isInThinkingPhase s"
    using track_file_op_quiet [of cb tu "(s, ops)"] t by simp_all
  show "phases_of (trace (fst (exec_tool env cb n acc itu))) = phases_of (trace (fst acc))"
    by (simp add: acc itu exec_tool_unfold [OF t] emit_def ph_simps phases_completion_events q)
  show "justExecutedTools (fst (exec_tool env cb n acc itu)) = justExecutedTools (fst acc)"
    by (simp add: acc itu exec_tool_unfold [OF t] emit_def q)
  show "isInThinkingPhase (fst (exec_tool env cb n acc itu)) = isInThinkingPhase (fst acc)"
    by (simp add: acc itu exec_tool_unfold [OF t] emit_def q)
qed

lemma foldl_exec_quiet:
  "phases_of (trace (fst (foldl (exec_tool env cb n) acc itus))) = phases_of (trace (fst acc))"
  "justExecutedTools (fst (foldl (exec_tool env cb n) acc itus)) = justExecutedTools (fst acc)"
  "isInThinkingPhase (fst (foldl (exec_tool env cb n) acc itus)) = isInThinkingPhase (fst acc)"
  by (induction itus arbitrary: acc; simp add: exec_tool_quiet)+

lemma run_tools_quiet:
  "phases_of (trace (snd (run_tools env cb n tus s))) = phases_of (trace s)"
  "justExecutedTools (snd (run_tools env cb n tus s)) = justExecutedTools s"
  "isInThinkingPhase (snd (run_tools env cb n tus s)) = isInThinkingPhase s"
proof -
  obtain s1 ops rs where f: "foldl (exec_tool env cb n) (s, Map.empty, []) (zip [0..<length tus] tus) = (s1, ops, rs)"
    by (cases "foldl (exec_tool env cb n) (s, Map.empty, []) (zip [0..<length tus] tus)") auto
  have q: "phases_of (trace s1) = phases_of (trace s)" "justExecutedTools s1 = justExecutedTools s"
    "isInThinkingPhase s1 = isInThinkingPhase s"
    using foldl_exec_quiet [of env cb n "(s, Map.empty, [])" "zip [0..<length tus] tus"] f by simp_all
  show "phases_of (trace (snd (run_tools env cb n tus s))) = phases_of (trace s)"
    using q by (simp add: run_tools_def f Let_def split: option.splits)
  show "justExecutedTools (snd (run_tools env cb n tus s)) = justExecutedTools s"
    using q by (simp add: run_tools_def f Let_def split: option.splits)
  show "isInThinkingPhase (snd (run_tools env cb n tus s)) = isInThinkingPhase s"
    using q by (simp add: run_tools_def f Let_def split: option.splits)
qed

subsection \<open>Phases and flags: streaming\<close>

lemma streamed_text_Nil: "streamed_text [] = []"
  by (simp add: streamed_text_def)

lemma streamed_text_Cons:
  "streamed_text (d # ds) = (if d_type d = ''text'' then d_content d else []) @ streamed_text ds"
  by (simp add: streamed_text_def)

text \<open>Once \<open>hasEmittedThinking\<close> is set, streaming emits no phase.\<close>

lemma on_delta_seen:
  "fst (on_delta cb (True, s) d) = True
   \<and> phases_of (trace (snd (on_delta cb (True, s) d))) = phases_of (trace s)
   \<and> isInThinkingPhase (snd (on_delta cb (True, s) d)) = isInThinkingPhase s
   \<and> (isInThinkingPhase s \<longrightarrow>
        thinkingBuffer (snd (on_delta cb (True, s) d)) =
          thinkingBuffer s @ (if d_type d = ''text'' then d_content d else []))"
  by (simp add: on_delta_def emit_def Let_def ph_simps)

lemma foldl_on_delta_seen:
  "fst (foldl (on_delta cb) (True, s) ds) = True
   \<and> phases_of (trace (snd (foldl (on_delta cb) (True, s) ds))) = phases_of (trace s)
   \<and> isInThinkingPhase (snd (foldl (on_delta cb) (True, s) ds)) = isInThinkingPhase s
   \<and> (isInThinkingPhase s \<longrightarrow>
        thinkingBuffer (snd (foldl (on_delta cb) (True, s) ds)) = thinkingBuffer s @ streamed_text ds)"
proof (induction ds arbitrary: s)
  case Nil
  then show ?case by (simp add: streamed_text_Nil)
next
  case (Cons d ds)
  obtain s1 where s1: "on_delta cb (True, s) d = (True, s1)"
    using on_delta_seen [of cb s d] by (cases "on_delta cb (True, s) d") auto
  have q: "phases_of (trace s1) = phases_of (trace s)" "isInThinkingPhase s1 = isInThinkingPhase s"
    "isInThinkingPhase s \<Longrightarrow> thinkingBuffer s1 = thinkingBuffer s @ (if d_type d = ''text'' then d_content d else [])"
    using on_delta_seen [of cb s d] s1 by simp_all
  show ?case
    using Cons.IH [of s1] q by (simp add: s1 streamed_text_Cons)
qed

text \<open>
  Before that, with \<open>onPhase\<close> supplied: the first delta of type \<open>text\<close> emits
  \<open>thinking\<close> and starts the thinking phase; all text goes to the thinking buffer.
\<close>

lemma foldl_on_delta_first:
  assumes "onPhase cb"
  shows "phases_of (trace (snd (foldl (on_delta cb) (False, s) ds))) =
           phases_of (trace s) @ (if \<exists>d \<in> set ds. d_type d = ''text'' then [Thinking] else [])
   \<and> ((\<exists>d \<in> set ds. d_type d = ''text'') \<longrightarrow>
         isInThinkingPhase (snd (foldl (on_delta cb) (False, s) ds)) \<and>
         thinkingBuffer (snd (foldl (on_delta cb) (False, s) ds)) = thinkingBuffer s @ streamed_text ds)
   \<and> (\<not> (\<exists>d \<in> set ds. d_type d = ''text'') \<longrightarrow>
         isInThinkingPhase (snd (foldl (on_delta cb) (False, s) ds)) = isInThinkingPhase s)"
proof (induction ds arbitrary: s)
  case Nil
  then show ?case by simp
next
  case (Cons d ds)
  show ?case
  proof (cases "d_type d = ''text''")
    case True
    let ?s1 = "(emit [OnPhase Thinking] s)\<lparr>isInThinkingPhase := True,
                 thinkingBuffer := thinkingBuffer s @ d_content d\<rparr>"
    have o: "on_delta cb (False, s) d = (True, ?s1)"
      using True assms by (simp add: on_delta_def emit_def Let_def)
    have i: "isInThinkingPhase ?s1" by simp
    from foldl_on_delta_seen [of cb ?s1 ds] i show ?thesis
      using True by (simp add: o emit_def ph_simps streamed_text_Cons)
  next
    case False
    have o: "on_delta cb (False, s) d = (False, s)"
      using False by (simp add: on_delta_def)
    show ?thesis
      using Cons.IH [of s] False by (simp add: o streamed_text_Cons)
  qed
qed

lemma turn_unfold:
  "turn env cb n s =
     (case snd (validateConversationHistory (conversationHistory s)) of
        Some e \<Rightarrow> (Threw (HistoryInvalid e), s)
      | None \<Rightarrow>
          (case sendMessage env n (conversationHistory s) of
             None \<Rightarrow> (Threw ModelClientError, call_state s)
           | Some (deltas, resp) \<Rightarrow> after_response env cb n (streamed cb s deltas) resp))"
  by (simp add: turn_def call_state_def streamed_def Let_def split: option.splits)

lemma after_response_unfold:
  "injectReadBeforeWriteBlocks (injectedId env n) (r_content resp) = (bs, tus) \<Longrightarrow>
   after_response env cb n s resp =
     (if tus = [] then
        (Break, finish_without_tools env cb (join_with [CHR 0x0A] (text_of_blocks (r_content resp)))
                  (assistant_pushed env cb bs tus resp s))
      else
        (case run_tools env cb n tus (tools_start env cb bs tus resp s) of
           (None, s7) \<Rightarrow> (Threw CheckerTypeError, s7)
         | (Some toolResults, s7) \<Rightarrow>
             (Continue,
              s7\<lparr>conversationHistory := conversationHistory s7 @
                   [\<lparr>role = User, content = Blocks (map ToolResultBlock toolResults)\<rparr>]\<rparr>)))"
  by (simp add: after_response_def assistant_pushed_def tools_start_def Let_def)

lemma call_state_props:
  "phases_of (trace (call_state s)) = phases_of (trace s)"
  "isInThinkingPhase (call_state s) = isInThinkingPhase s"
  "justExecutedTools (call_state s) = False"
  "thinkingBuffer (call_state s) = thinkingBuffer s"
  "isInSummaryPhase (call_state s) = (justExecutedTools s \<or> isInSummaryPhase s)"
  by (simp_all add: call_state_def emit_def ph_simps)

lemma streamed_just: "justExecutedTools (streamed cb s deltas) = False"
  by (simp add: streamed_def emit_def foldl_on_delta_keeps call_state_props)

lemma streamed_later:
  assumes "justExecutedTools s"
  shows "phases_of (trace (streamed cb s deltas)) = phases_of (trace s)"
    and "isInThinkingPhase (streamed cb s deltas) = isInThinkingPhase s"
  using foldl_on_delta_seen [of cb "call_state s" deltas] assms
  by (simp_all add: streamed_def emit_def ph_simps call_state_props)

lemma streamed_first:
  assumes "onPhase cb" and "\<not> justExecutedTools s"
  shows "phases_of (trace (streamed cb s deltas)) =
           phases_of (trace s) @ (if \<exists>d \<in> set deltas. d_type d = ''text'' then [Thinking] else [])"
    and "(\<exists>d \<in> set deltas. d_type d = ''text'') \<Longrightarrow>
           isInThinkingPhase (streamed cb s deltas) \<and>
           thinkingBuffer (streamed cb s deltas) = thinkingBuffer s @ streamed_text deltas"
    and "\<not> (\<exists>d \<in> set deltas. d_type d = ''text'') \<Longrightarrow>
           isInThinkingPhase (streamed cb s deltas) = isInThinkingPhase s"
    and "isInSummaryPhase (streamed cb s deltas) = isInSummaryPhase s"
  using foldl_on_delta_first [OF assms(1), of "call_state s" deltas] assms(2)
  by (simp_all add: streamed_def emit_def ph_simps call_state_props foldl_on_delta_keeps)

lemma assistant_pushed_props:
  "phases_of (trace (assistant_pushed env cb bs tus resp s)) =
     phases_of (trace s) @
       (if isInThinkingPhase s \<and> thinkingBuffer s \<noteq> [] \<and> tus \<noteq> [] \<and> onPhase cb then [Reasoning] else [])"
  "isInThinkingPhase (assistant_pushed env cb bs tus resp s) = (isInThinkingPhase s \<and> thinkingBuffer s = [])"
  "justExecutedTools (assistant_pushed env cb bs tus resp s) = justExecutedTools s"
  "isInSummaryPhase (assistant_pushed env cb bs tus resp s) = isInSummaryPhase s"
  "summaryBuffer (assistant_pushed env cb bs tus resp s) = summaryBuffer s"
  by (auto simp: assistant_pushed_def push_assistant_def thinking_transition_def emit_def ph_simps)

lemma finish_phases:
  "phases_of (trace (finish_without_tools env cb t s)) =
     phases_of (trace s) @
       (if isInSummaryPhase s \<and> summaryBuffer s \<noteq> [] \<and> onPhase cb then [Building] else [])"
  by (simp add: finish_without_tools_def emit_def Let_def ph_simps)

text \<open>What the rest of a turn adds to the phases, from the state after streaming.\<close>

lemma after_response_phases:
  assumes "injectReadBeforeWriteBlocks (injectedId env n) (r_content resp) = (bs, tus)"
    and "after_response env cb n s resp = (oc, s')"
  shows "tus = [] \<Longrightarrow>
           oc = Break \<and> justExecutedTools s' = justExecutedTools s \<and>
           phases_of (trace s') = phases_of (trace s) @
             (if isInSummaryPhase s \<and> summaryBuffer s \<noteq> [] \<and> onPhase cb then [Building] else [])"
    and "tus \<noteq> [] \<Longrightarrow>
           oc \<noteq> Break \<and> justExecutedTools s' \<and>
           isInThinkingPhase s' = (isInThinkingPhase s \<and> thinkingBuffer s = []) \<and>
           phases_of (trace s') = phases_of (trace s) @
             (if isInThinkingPhase s \<and> thinkingBuffer s \<noteq> [] \<and> onPhase cb then [Reasoning] else []) @
             (if onPhase cb then [CodeWriting] else [])"
proof -
  note u = after_response_unfold [OF assms(1), of cb s]
  show "oc = Break \<and> justExecutedTools s' = justExecutedTools s \<and>
           phases_of (trace s') = phases_of (trace s) @
             (if isInSummaryPhase s \<and> summaryBuffer s \<noteq> [] \<and> onPhase cb then [Building] else [])"
    if "tus = []"
    using that assms(2) u
    by (auto simp: finish_phases finish_keeps assistant_pushed_props)
  show "oc \<noteq> Break \<and> justExecutedTools s' \<and>
           isInThinkingPhase s' = (isInThinkingPhase s \<and> thinkingBuffer s = []) \<and>
           phases_of (trace s') = phases_of (trace s) @
             (if isInThinkingPhase s \<and> thinkingBuffer s \<noteq> [] \<and> onPhase cb then [Reasoning] else []) @
             (if onPhase cb then [CodeWriting] else [])"
    if t: "tus \<noteq> []"
  proof -
    let ?s6 = "tools_start env cb bs tus resp s"
    have p6: "phases_of (trace ?s6) = phases_of (trace s) @
             (if isInThinkingPhase s \<and> thinkingBuffer s \<noteq> [] \<and> onPhase cb then [Reasoning] else []) @
             (if onPhase cb then [CodeWriting] else [])"
      and i6: "isInThinkingPhase ?s6 = (isInThinkingPhase s \<and> thinkingBuffer s = [])"
      and j6: "justExecutedTools ?s6"
      using t by (simp_all add: tools_start_def emit_def ph_simps assistant_pushed_props)
    obtain r s7 where r: "run_tools env cb n tus ?s6 = (r, s7)"
      by (cases "run_tools env cb n tus ?s6") auto
    have q: "phases_of (trace s7) = phases_of (trace ?s6)" "justExecutedTools s7 = justExecutedTools ?s6"
      "isInThinkingPhase s7 = isInThinkingPhase ?s6"
      using run_tools_quiet [of env cb n tus ?s6] r by simp_all
    show ?thesis
      using assms(2) u t r q p6 i6 j6 by (auto split: option.splits)
  qed
qed

subsection \<open>What the model client streamed\<close>

lemma returns_of_append: "returns_of (a @ b) = returns_of a @ returns_of b"
  by (induction a rule: returns_of.induct) auto

lemma returns_of_map_OnReasoning: "returns_of (map OnReasoning xs) = []"
  by (induction xs) auto

lemma returns_of_map_OnDelta: "returns_of (map (OnDelta t) xs) = []"
  by (induction xs) auto

lemmas ro_simps = returns_of_append returns_of_map_OnReasoning returns_of_map_OnDelta

lemma ro_on_delta: "returns_of (trace (snd (on_delta cb hs d))) = returns_of (trace (snd hs))"
  by (cases hs) (simp add: on_delta_def emit_def Let_def ro_simps)

lemma ro_foldl_on_delta:
  "returns_of (trace (snd (foldl (on_delta cb) hs ds))) = returns_of (trace (snd hs))"
  by (induction ds arbitrary: hs) (simp_all add: ro_on_delta)

lemma ro_streamed: "returns_of (trace (streamed cb s deltas)) = returns_of (trace s) @ [deltas]"
  by (simp add: streamed_def emit_def ro_simps ro_foldl_on_delta call_state_def)

lemma ro_assistant_pushed:
  "returns_of (trace (assistant_pushed env cb bs tus resp s)) = returns_of (trace s)"
  by (simp add: assistant_pushed_def push_assistant_def thinking_transition_def emit_def ro_simps)

lemma ro_finish: "returns_of (trace (finish_without_tools env cb t s)) = returns_of (trace s)"
  by (simp add: finish_without_tools_def emit_def Let_def ro_simps)

lemma ro_track_file_op:
  "returns_of (trace (fst (track_file_op cb tu sn))) = returns_of (trace (fst sn))"
  by (cases sn) (simp add: track_file_op_def emit_def Let_def ro_simps split: option.splits)

lemma ro_completion_events: "returns_of (completion_events cb tu ops) = []"
  by (simp add: completion_events_def split: option.splits)

lemma ro_exec_tool:
  "returns_of (trace (fst (exec_tool env cb n acc itu))) = returns_of (trace (fst acc))"
proof -
  obtain s ops rs where acc: "acc = (s, ops, rs)" by (cases acc) auto
  obtain i tu where itu: "itu = (i, tu)" by (cases itu) auto
  obtain s1 ops1 where t: "track_file_op cb tu (s, ops) = (s1, ops1)"
    by (cases "track_file_op cb tu (s, ops)") auto
  have "returns_of (trace s1) = returns_of (trace s)"
    using ro_track_file_op [of cb tu "(s, ops)"] t by simp
  then show ?thesis
    by (simp add: acc itu exec_tool_unfold [OF t] emit_def ro_simps ro_completion_events)
qed

lemma ro_foldl_exec:
  "returns_of (trace (fst (foldl (exec_tool env cb n) acc itus))) = returns_of (trace (fst acc))"
  by (induction itus arbitrary: acc) (simp_all add: ro_exec_tool)

lemma ro_run_tools: "returns_of (trace (snd (run_tools env cb n tus s))) = returns_of (trace s)"
proof -
  obtain s1 ops rs where f: "foldl (exec_tool env cb n) (s, Map.empty, []) (zip [0..<length tus] tus) = (s1, ops, rs)"
    by (cases "foldl (exec_tool env cb n) (s, Map.empty, []) (zip [0..<length tus] tus)") auto
  have "returns_of (trace s1) = returns_of (trace s)"
    using ro_foldl_exec [of env cb n "(s, Map.empty, [])" "zip [0..<length tus] tus"] f by simp
  then show ?thesis
    by (simp add: run_tools_def f Let_def split: option.splits)
qed

lemma ro_after_response:
  "returns_of (trace (snd (after_response env cb n s resp))) = returns_of (trace s)"
proof -
  obtain bs tus where e: "injectReadBeforeWriteBlocks (injectedId env n) (r_content resp) = (bs, tus)"
    by (cases "injectReadBeforeWriteBlocks (injectedId env n) (r_content resp)") auto
  show ?thesis
  proof (cases "tus = []")
    case True
    then show ?thesis
      by (simp add: after_response_unfold [OF e] ro_finish ro_assistant_pushed)
  next
    case False
    let ?s6 = "tools_start env cb bs tus resp s"
    have m6: "returns_of (trace ?s6) = returns_of (trace s)"
      by (simp add: tools_start_def emit_def ro_simps ro_assistant_pushed)
    obtain r s7 where r: "run_tools env cb n tus ?s6 = (r, s7)"
      by (cases "run_tools env cb n tus ?s6") auto
    have "returns_of (trace s7) = returns_of (trace s)"
      using ro_run_tools [of env cb n tus ?s6] r m6 by simp
    then show ?thesis
      using False by (simp add: after_response_unfold [OF e] r split: option.splits)
  qed
qed

text \<open>
  In a turn that follows a turn with tools, when the thinking phase is over, the text
  streamed goes to the summary buffer.
\<close>

lemma on_delta_summary:
  "\<not> isInThinkingPhase s \<Longrightarrow> isInSummaryPhase s \<Longrightarrow>
     fst (on_delta cb (True, s) d) = True
   \<and> \<not> isInThinkingPhase (snd (on_delta cb (True, s) d))
   \<and> isInSummaryPhase (snd (on_delta cb (True, s) d))
   \<and> summaryBuffer (snd (on_delta cb (True, s) d)) =
       summaryBuffer s @ (if d_type d = ''text'' then d_content d else [])"
  by (simp add: on_delta_def emit_def Let_def)

lemma foldl_on_delta_summary:
  "\<not> isInThinkingPhase s \<Longrightarrow> isInSummaryPhase s \<Longrightarrow>
     isInSummaryPhase (snd (foldl (on_delta cb) (True, s) ds))
   \<and> summaryBuffer (snd (foldl (on_delta cb) (True, s) ds)) = summaryBuffer s @ streamed_text ds"
proof (induction ds arbitrary: s)
  case Nil
  then show ?case by (simp add: streamed_text_Nil)
next
  case (Cons d ds)
  obtain s1 where s1: "on_delta cb (True, s) d = (True, s1)"
    using on_delta_summary [OF Cons.prems, of cb d] by (cases "on_delta cb (True, s) d") auto
  have q: "\<not> isInThinkingPhase s1" "isInSummaryPhase s1"
    "summaryBuffer s1 = summaryBuffer s @ (if d_type d = ''text'' then d_content d else [])"
    using on_delta_summary [OF Cons.prems, of cb d] s1 by simp_all
  show ?case
    using Cons.IH [OF q(1,2)] q(3) by (simp add: s1 streamed_text_Cons)
qed

lemma streamed_summary:
  assumes "justExecutedTools s" and "\<not> isInThinkingPhase s"
  shows "isInSummaryPhase (streamed cb s deltas)"
    and "summaryBuffer (streamed cb s deltas) = streamed_text deltas"
proof -
  have c: "\<not> isInThinkingPhase (call_state s)" "isInSummaryPhase (call_state s)"
    "summaryBuffer (call_state s) = []"
    using assms by (simp_all add: call_state_def emit_def)
  show "isInSummaryPhase (streamed cb s deltas)"
    using foldl_on_delta_summary [OF c(1,2), of cb deltas] assms(1)
    by (simp add: streamed_def emit_def)
  show "summaryBuffer (streamed cb s deltas) = streamed_text deltas"
    using foldl_on_delta_summary [OF c(1,2), of cb deltas] assms(1) c(3)
    by (simp add: streamed_def emit_def)
qed

lemma last_streamed_turn:
  assumes "after_response env cb n (streamed cb s deltas) resp = (oc, s')"
  shows "last_streamed (trace s') = deltas"
  using ro_after_response [of env cb n "streamed cb s deltas" resp] assms
  by (simp add: last_streamed_def ro_streamed)

text \<open>A turn that neither throws nor fails to reach the model, taken apart.\<close>

lemma turn_returns:
  assumes "turn env cb n s = (oc, s')" and "oc = Continue \<or> oc = Break"
  obtains deltas resp where
    "snd (validateConversationHistory (conversationHistory s)) = None"
    "sendMessage env n (conversationHistory s) = Some (deltas, resp)"
    "after_response env cb n (streamed cb s deltas) resp = (oc, s')"
  using assms by (auto simp: turn_unfold split: option.splits)

lemma later_turn:
  assumes "onPhase cb" and "justExecutedTools s" and "\<not> isInThinkingPhase s"
    and "turn env cb n s = (oc, s')"
  shows "oc = Continue \<Longrightarrow>
           phases_of (trace s') = phases_of (trace s) @ [CodeWriting] \<and> justExecutedTools s' \<and>
           \<not> isInThinkingPhase s' \<and> model_calls (trace s') = Suc (model_calls (trace s))"
    and "oc = Break \<Longrightarrow>
           phases_of (trace s') = phases_of (trace s) @
             (if streamed_text (last_streamed (trace s')) \<noteq> [] then [Building] else []) \<and>
           \<not> justExecutedTools s' \<and> model_calls (trace s') = Suc (model_calls (trace s))"
proof -
  show "phases_of (trace s') = phases_of (trace s) @ [CodeWriting] \<and> justExecutedTools s' \<and>
           \<not> isInThinkingPhase s' \<and> model_calls (trace s') = Suc (model_calls (trace s))"
    if c: "oc = Continue"
  proof -
    from assms(4) c obtain deltas resp where
      v: "snd (validateConversationHistory (conversationHistory s)) = None" and
      a: "after_response env cb n (streamed cb s deltas) resp = (oc, s')"
      by (auto elim: turn_returns)
    obtain bs tus where e: "injectReadBeforeWriteBlocks (injectedId env n) (r_content resp) = (bs, tus)"
      by (cases "injectReadBeforeWriteBlocks (injectedId env n) (r_content resp)") auto
    have t: "tus \<noteq> []" using after_response_phases(1) [OF e a] c by auto
    have m: "model_calls (trace s') = Suc (model_calls (trace s))"
      using mc_turn_valid [OF v, of env cb n] assms(4) by simp
    show ?thesis
      using after_response_phases(2) [OF e a t] streamed_later [OF assms(2), of cb deltas]
        assms(1,3) m by simp
  qed
  show "phases_of (trace s') = phases_of (trace s) @
             (if streamed_text (last_streamed (trace s')) \<noteq> [] then [Building] else []) \<and>
           \<not> justExecutedTools s' \<and> model_calls (trace s') = Suc (model_calls (trace s))"
    if c: "oc = Break"
  proof -
    from assms(4) c obtain deltas resp where
      v: "snd (validateConversationHistory (conversationHistory s)) = None" and
      a: "after_response env cb n (streamed cb s deltas) resp = (oc, s')"
      by (auto elim: turn_returns)
    obtain bs tus where e: "injectReadBeforeWriteBlocks (injectedId env n) (r_content resp) = (bs, tus)"
      by (cases "injectReadBeforeWriteBlocks (injectedId env n) (r_content resp)") auto
    have t: "tus = []" using after_response_phases(2) [OF e a] c by auto
    have m: "model_calls (trace s') = Suc (model_calls (trace s))"
      using mc_turn_valid [OF v, of env cb n] assms(4) by simp
    have p: "phases_of (trace s') = phases_of (trace s) @
        (if isInSummaryPhase (streamed cb s deltas) \<and> summaryBuffer (streamed cb s deltas) \<noteq> [] \<and> onPhase cb
         then [Building] else [])"
      and j: "\<not> justExecutedTools s'"
      using after_response_phases(1) [OF e a t] streamed_later [OF assms(2), of cb deltas]
      by (simp_all add: streamed_just)
    show ?thesis
      using p j m assms(1) streamed_summary [OF assms(2,3), of cb deltas] last_streamed_turn [OF a]
      by simp
  qed
qed

text \<open>The turns after a turn that executed tools, when the thinking phase is over.\<close>

lemma later_loop:
  assumes "onPhase cb"
  shows "justExecutedTools s \<Longrightarrow> \<not> isInThinkingPhase s \<Longrightarrow> run_loop env cb n s = (None, s') \<Longrightarrow>
     \<exists>k. phases_of (trace s') = phases_of (trace s) @ replicate k CodeWriting @
           (if \<not> justExecutedTools s' \<and> streamed_text (last_streamed (trace s')) \<noteq> []
            then [Building] else [])
       \<and> model_calls (trace s') = model_calls (trace s) + k + (if justExecutedTools s' then 0 else 1)"
  using assms
proof (induction env cb n s rule: run_loop.induct)
  case (1 env cb turnCount s)
  show ?case
  proof (cases "turnCount < MAX_AGENT_TURNS env")
    case False
    then have "s' = s" using "1.prems"(3) by (simp add: run_loop.simps [of env cb turnCount s])
    then show ?thesis
      using "1.prems"(1) by (intro exI [of _ 0]) simp
  next
    case True
    obtain oc s1 where t: "turn env cb (Suc turnCount) s = (oc, s1)"
      by (cases "turn env cb (Suc turnCount) s") auto
    note lt = later_turn [OF "1.prems"(4) "1.prems"(1) "1.prems"(2) t]
    show ?thesis
    proof (cases oc)
      case Continue
      then have r: "run_loop env cb (Suc turnCount) s1 = (None, s')"
        using "1.prems"(3) True t by (simp add: run_loop.simps [of env cb turnCount s])
      from lt(1) [OF Continue] have
        p1: "phases_of (trace s1) = phases_of (trace s) @ [CodeWriting]" and
        j1: "justExecutedTools s1" and i1: "\<not> isInThinkingPhase s1" and
        m1: "model_calls (trace s1) = Suc (model_calls (trace s))"
        by simp_all
      from "1.IH" [OF True t [symmetric] Continue j1 i1 r "1.prems"(4)] obtain k where
        kb: "phases_of (trace s') = phases_of (trace s1) @ replicate k CodeWriting @
               (if \<not> justExecutedTools s' \<and> streamed_text (last_streamed (trace s')) \<noteq> []
                then [Building] else [])"
          "model_calls (trace s') = model_calls (trace s1) + k + (if justExecutedTools s' then 0 else 1)"
        by blast
      show ?thesis
        using kb p1 m1 by (intro exI [of _ "Suc k"]) simp
    next
      case Break
      then have "s' = s1"
        using "1.prems"(3) True t by (simp add: run_loop.simps [of env cb turnCount s])
      from lt(2) [OF Break] this have
        "phases_of (trace s') = phases_of (trace s) @
           (if streamed_text (last_streamed (trace s')) \<noteq> [] then [Building] else [])"
        "\<not> justExecutedTools s'" "model_calls (trace s') = Suc (model_calls (trace s))"
        by simp_all
      then show ?thesis
        by (intro exI [of _ 0]) simp
    next
      case (Threw e)
      then show ?thesis
        using "1.prems"(3) True t by (simp add: run_loop.simps [of env cb turnCount s])
    qed
  qed
qed

text \<open>No turn that follows a turn with tools emits \<open>thinking\<close>.\<close>

lemma turn_no_thinking:
  assumes "justExecutedTools s" and "turn env cb n s = (oc, s')"
  shows "\<exists>es. phases_of (trace s') = phases_of (trace s) @ es \<and> Thinking \<notin> set es
           \<and> (oc = Continue \<longrightarrow> justExecutedTools s')"
proof (cases "snd (validateConversationHistory (conversationHistory s))")
  case (Some e)
  then show ?thesis using assms(2) by (auto simp: turn_unfold)
next
  case None
  show ?thesis
  proof (cases "sendMessage env n (conversationHistory s)")
    case N: None
    then show ?thesis using assms(2) None by (auto simp: turn_unfold call_state_props)
  next
    case (Some dr)
    obtain deltas resp where dr: "dr = (deltas, resp)" by (cases dr) auto
    have a: "after_response env cb n (streamed cb s deltas) resp = (oc, s')"
      using assms(2) None Some dr by (simp add: turn_unfold)
    obtain bs tus where e: "injectReadBeforeWriteBlocks (injectedId env n) (r_content resp) = (bs, tus)"
      by (cases "injectReadBeforeWriteBlocks (injectedId env n) (r_content resp)") auto
    note sl = streamed_later [OF assms(1), of cb deltas]
    show ?thesis
    proof (cases "tus = []")
      case True
      from after_response_phases(1) [OF e a True] sl show ?thesis by auto
    next
      case False
      from after_response_phases(2) [OF e a False] sl show ?thesis by auto
    qed
  qed
qed

lemma loop_no_thinking:
  "justExecutedTools s \<Longrightarrow>
     \<exists>es. phases_of (trace (snd (run_loop env cb n s))) = phases_of (trace s) @ es \<and> Thinking \<notin> set es"
proof (induction env cb n s rule: run_loop.induct)
  case (1 env cb turnCount s)
  show ?case
  proof (cases "turnCount < MAX_AGENT_TURNS env")
    case False
    then show ?thesis by (simp add: run_loop.simps [of env cb turnCount s])
  next
    case True
    obtain oc s1 where t: "turn env cb (Suc turnCount) s = (oc, s1)"
      by (cases "turn env cb (Suc turnCount) s") auto
    from turn_no_thinking [OF "1.prems" t] obtain es where
      es: "phases_of (trace s1) = phases_of (trace s) @ es" "Thinking \<notin> set es"
        "oc = Continue \<longrightarrow> justExecutedTools s1"
      by blast
    show ?thesis
    proof (cases oc)
      case Continue
      from "1.IH" [OF True t [symmetric] Continue] es(3) Continue obtain es' where
        "phases_of (trace (snd (run_loop env cb (Suc turnCount) s1))) = phases_of (trace s1) @ es'"
        "Thinking \<notin> set es'"
        by blast
      then show ?thesis
        using True t Continue es(1,2)
        by (intro exI [of _ "es @ es'"]) (simp add: run_loop.simps [of env cb turnCount s])
    next
      case Break
      then show ?thesis
        using True t es(1,2) by (simp add: run_loop.simps [of env cb turnCount s])
    next
      case (Threw e)
      then show ?thesis
        using True t es(1,2) by (simp add: run_loop.simps [of env cb turnCount s])
    qed
  qed
qed

subsection \<open>The order of the phases\<close>

lemma streamed_text_has_text: "streamed_text deltas \<noteq> [] \<Longrightarrow> \<exists>d \<in> set deltas. d_type d = ''text''"
  by (induction deltas) (auto simp: streamed_text_Nil streamed_text_Cons split: if_splits)

lemma initial_props:
  "\<not> justExecutedTools (initial_state history userMessage)"
  "\<not> isInThinkingPhase (initial_state history userMessage)"
  "\<not> isInSummaryPhase (initial_state history userMessage)"
  "thinkingBuffer (initial_state history userMessage) = []"
  "trace (initial_state history userMessage) = []"
  by (simp_all add: initial_state_def)

text \<open>A request that returns has run its loop to the end without a throw.\<close>

lemma processRequest_returns:
  assumes "processRequest env cb history userMessage = (Inr r, s)"
  obtains sf where
    "run_loop env cb 0 (initial_state history userMessage) = (None, sf)"
    "s = emit ((if onPhase cb then [OnPhase Completed] else [])
               @ (if onComplete cb then [OnComplete (totalInputTokens sf) (totalOutputTokens sf)] else []))
           sf"
  using assms by (auto simp: processRequest_def split: prod.splits option.splits)

lemma emit_completed:
  assumes "onPhase cb"
  shows "phases_of (trace (emit ((if onPhase cb then [OnPhase Completed] else [])
               @ (if onComplete cb then [OnComplete a b] else [])) sf))
           = phases_of (trace sf) @ [Completed]"
    and "model_calls (trace (emit ((if onPhase cb then [OnPhase Completed] else [])
               @ (if onComplete cb then [OnComplete a b] else [])) sf))
           = model_calls (trace sf)"
    and "justExecutedTools (emit ((if onPhase cb then [OnPhase Completed] else [])
               @ (if onComplete cb then [OnComplete a b] else [])) sf)
           = justExecutedTools sf"
    and "last_streamed (trace (emit ((if onPhase cb then [OnPhase Completed] else [])
               @ (if onComplete cb then [OnComplete a b] else [])) sf))
           = last_streamed (trace sf)"
  using assms by (simp_all add: emit_def ph_simps mc_simps ro_simps last_streamed_def)

text \<open>
  C5, as amended. Let the \<open>onPhase\<close> callback be supplied and the request return.
  If the first turn streams non-empty text and has at least one executable tool use, the
  phases are exactly: thinking, reasoning, code-writing once for each turn that executed
  tools, then building exactly when the request ended with a turn without tools in which
  the model client streamed non-empty text, then completed. (At the end of the loop
  \<open>justExecutedTools\<close> tells that the last turn executed tools, which is the case when
  the loop stopped at the ceiling: then there are as many calls of the model client as
  turns with tools, else one more. \<open>last_streamed\<close> gives the deltas of the last call
  of the model client.) If the first turn has no tool use, the phases are thinking (if
  the turn streamed a text delta) and completed, so reasoning is skipped. In every case
  thinking can only be the very first phase, emitted by the first turn: no later turn
  emits it.
\<close>

theorem phase_order:
  assumes "onPhase cb" and "0 < MAX_AGENT_TURNS env"
    and "processRequest env cb history userMessage = (Inr r, s)"
    and "sendMessage env 1 (conversationHistory (initial_state history userMessage)) = Some (deltas, resp)"
    and "injectReadBeforeWriteBlocks (injectedId env 1) (r_content resp) = (bs, tus)"
  shows "(tus \<noteq> [] \<and> streamed_text deltas \<noteq> [] \<longrightarrow>
           (\<exists>k. phases_of (trace s) =
                     [Thinking, Reasoning] @ replicate (Suc k) CodeWriting
                       @ (if \<not> justExecutedTools s \<and> streamed_text (last_streamed (trace s)) \<noteq> []
                          then [Building] else [])
                       @ [Completed]
                 \<and> model_calls (trace s) = Suc k + (if justExecutedTools s then 0 else 1)))
       \<and> (tus = [] \<longrightarrow>
           phases_of (trace s) =
             (if \<exists>d \<in> set deltas. d_type d = ''text'' then [Thinking] else []) @ [Completed])
       \<and> (\<exists>rest. phases_of (trace s) =
             (if \<exists>d \<in> set deltas. d_type d = ''text'' then [Thinking] else []) @ rest
             \<and> Thinking \<notin> set rest)"
proof -
  let ?s0 = "initial_state history userMessage"
  from processRequest_returns [OF assms(3)] obtain sf where
    rl: "run_loop env cb 0 ?s0 = (None, sf)" and
    s: "s = emit ((if onPhase cb then [OnPhase Completed] else [])
               @ (if onComplete cb then [OnComplete (totalInputTokens sf) (totalOutputTokens sf)] else []))
           sf"
    by blast
  note fin = emit_completed [OF assms(1), of "totalInputTokens sf" "totalOutputTokens sf" sf]
  obtain oc s1 where t: "turn env cb (Suc 0) ?s0 = (oc, s1)"
    by (cases "turn env cb (Suc 0) ?s0") auto
  have rl': "(case oc of Continue \<Rightarrow> run_loop env cb (Suc 0) s1
              | Break \<Rightarrow> (None, s1) | Threw e \<Rightarrow> (Some e, s1)) = (None, sf)"
    using rl assms(2) t by (simp add: run_loop.simps [of env cb 0 ?s0])
  then have oc: "oc = Continue \<or> oc = Break" by (cases oc) auto
  have v: "snd (validateConversationHistory (conversationHistory ?s0)) = None"
    using t oc by (auto elim: turn_returns)
  have a: "after_response env cb (Suc 0) (streamed cb ?s0 deltas) resp = (oc, s1)"
    using t v assms(4) by (simp add: turn_unfold)
  have e: "injectReadBeforeWriteBlocks (injectedId env (Suc 0)) (r_content resp) = (bs, tus)"
    using assms(5) by simp
  have m1: "model_calls (trace s1) = Suc 0"
    using mc_turn_valid [OF v, of env cb "Suc 0"] t by (simp add: initial_props mc_simps)
  note sf1 = streamed_first [OF assms(1) initial_props(1) [of history userMessage], of deltas]
  let ?th = "if \<exists>d \<in> set deltas. d_type d = ''text'' then [Thinking] else []"
  have p0: "phases_of (trace (streamed cb ?s0 deltas)) = ?th"
    using sf1(1) by (simp add: initial_props)
  have A: "tus \<noteq> [] \<and> streamed_text deltas \<noteq> [] \<longrightarrow>
           (\<exists>k. phases_of (trace s) =
                     [Thinking, Reasoning] @ replicate (Suc k) CodeWriting
                       @ (if \<not> justExecutedTools s \<and> streamed_text (last_streamed (trace s)) \<noteq> []
                          then [Building] else [])
                       @ [Completed]
                 \<and> model_calls (trace s) = Suc k + (if justExecutedTools s then 0 else 1))"
  proof
    assume h: "tus \<noteq> [] \<and> streamed_text deltas \<noteq> []"
    then have tx: "\<exists>d \<in> set deltas. d_type d = ''text''"
      using streamed_text_has_text by blast
    have it: "isInThinkingPhase (streamed cb ?s0 deltas)"
      and tb: "thinkingBuffer (streamed cb ?s0 deltas) \<noteq> []"
      using sf1(2) [OF tx] h by (simp_all add: initial_props)
    from after_response_phases(2) [OF e a] h have
      nb: "oc \<noteq> Break" and j1: "justExecutedTools s1" and
      i1: "isInThinkingPhase s1 = (isInThinkingPhase (streamed cb ?s0 deltas) \<and>
             thinkingBuffer (streamed cb ?s0 deltas) = [])" and
      p1: "phases_of (trace s1) = phases_of (trace (streamed cb ?s0 deltas)) @
             (if isInThinkingPhase (streamed cb ?s0 deltas) \<and> thinkingBuffer (streamed cb ?s0 deltas) \<noteq> []
                 \<and> onPhase cb then [Reasoning] else []) @
             (if onPhase cb then [CodeWriting] else [])"
      by simp_all
    have i1': "\<not> isInThinkingPhase s1" using i1 tb by simp
    have p1': "phases_of (trace s1) = [Thinking, Reasoning, CodeWriting]"
      using p1 p0 tx it tb assms(1) by simp
    have c: "oc = Continue" using oc nb by simp
    then have r1: "run_loop env cb (Suc 0) s1 = (None, sf)" using rl' by simp
    from later_loop [OF assms(1) j1 i1' r1] obtain k where
      kb: "phases_of (trace sf) = phases_of (trace s1) @ replicate k CodeWriting @
             (if \<not> justExecutedTools sf \<and> streamed_text (last_streamed (trace sf)) \<noteq> []
              then [Building] else [])"
        "model_calls (trace sf) = model_calls (trace s1) + k + (if justExecutedTools sf then 0 else 1)"
      by blast
    show "\<exists>k. phases_of (trace s) =
                     [Thinking, Reasoning] @ replicate (Suc k) CodeWriting
                       @ (if \<not> justExecutedTools s \<and> streamed_text (last_streamed (trace s)) \<noteq> []
                          then [Building] else [])
                       @ [Completed]
                 \<and> model_calls (trace s) = Suc k + (if justExecutedTools s then 0 else 1)"
      using kb p1' m1 fin by (intro exI [of _ k]) (simp add: s)
  qed
  have B: "tus = [] \<longrightarrow> phases_of (trace s) = ?th @ [Completed]"
  proof
    assume h: "tus = []"
    from after_response_phases(1) [OF e a h] have
      b: "oc = Break" and
      p1: "phases_of (trace s1) = phases_of (trace (streamed cb ?s0 deltas)) @
             (if isInSummaryPhase (streamed cb ?s0 deltas) \<and> summaryBuffer (streamed cb ?s0 deltas) \<noteq> []
                 \<and> onPhase cb then [Building] else [])"
      by simp_all
    have "sf = s1" using rl' b by simp
    moreover have "phases_of (trace s1) = ?th"
      using p1 p0 sf1(4) by (simp add: initial_props)
    ultimately show "phases_of (trace s) = ?th @ [Completed]"
      using fin(1) by (simp add: s)
  qed
  have C: "\<exists>rest. phases_of (trace s) = ?th @ rest \<and> Thinking \<notin> set rest"
  proof -
    have "\<exists>es. phases_of (trace s1) = ?th @ es \<and> Thinking \<notin> set es
            \<and> (oc = Continue \<longrightarrow> justExecutedTools s1)"
    proof (cases "tus = []")
      case True
      from after_response_phases(1) [OF e a True] p0 show ?thesis by auto
    next
      case False
      from after_response_phases(2) [OF e a False] p0 show ?thesis by auto
    qed
    then obtain es where es: "phases_of (trace s1) = ?th @ es" "Thinking \<notin> set es"
      "oc = Continue \<longrightarrow> justExecutedTools s1"
      by blast
    have "\<exists>es'. phases_of (trace sf) = phases_of (trace s1) @ es' \<and> Thinking \<notin> set es'"
    proof (cases "oc = Continue")
      case True
      then have "run_loop env cb (Suc 0) s1 = (None, sf)" using rl' by simp
      then show ?thesis
        using loop_no_thinking [of s1 env cb "Suc 0"] es(3) True by simp
    next
      case False
      then have "oc = Break" using oc by simp
      then have "sf = s1" using rl' by simp
      then show ?thesis by simp
    qed
    then obtain es' where es': "phases_of (trace sf) = phases_of (trace s1) @ es'" "Thinking \<notin> set es'"
      by blast
    show ?thesis
      using es(1,2) es' fin(1) by (intro exI [of _ "es @ es' @ [Completed]"]) (simp add: s)
  qed
  show ?thesis using A B C by blast
qed

text \<open>
  A request whose first turn streams text and writes a file, and whose second turn is
  text alone: thinking, reasoning, code-writing, building, completed. When the second
  turn streams nothing, there is no building phase.
\<close>

theorem phase_order_witness:
  "onPhase all_callbacks \<and> 0 < MAX_AGENT_TURNS demo_env_text
   \<and> fst (processRequest demo_env_text all_callbacks [] ''hi'') = Inr ''doneverified''
   \<and> (\<exists>k. phases_of (trace (snd (processRequest demo_env_text all_callbacks [] ''hi''))) =
                [Thinking, Reasoning] @ replicate (Suc k) CodeWriting
                  @ (if \<not> justExecutedTools (snd (processRequest demo_env_text all_callbacks [] ''hi''))
                        \<and> streamed_text (last_streamed
                              (trace (snd (processRequest demo_env_text all_callbacks [] ''hi'')))) \<noteq> []
                     then [Building] else [])
                  @ [Completed])
   \<and> streamed_text (last_streamed (trace (snd (processRequest demo_env_text all_callbacks [] ''hi''))))
       = ''done''
   \<and> phases_of (trace (snd (processRequest demo_env_text all_callbacks [] ''hi''))) =
        [Thinking, Reasoning, CodeWriting, Building, Completed]
   \<and> phases_of (trace (snd (processRequest demo_env_silent_end all_callbacks [] ''hi''))) =
        [Thinking, Reasoning, CodeWriting, Completed]"
proof -
  let ?deltas = "[\<lparr>d_type = ''text'', d_content = ''I will create main.js''\<rparr>]"
  let ?tu = "\<lparr>tu_id = ''t1'', tu_name = ''either-write'',
               tu_input = [(''path'', JStr ''main.js''), (''content'', JStr ''x'')]\<rparr>"
  let ?s = "snd (processRequest demo_env_text all_callbacks [] ''hi'')"
  have h1: "onPhase all_callbacks" by (simp add: all_callbacks_def)
  have h2: "0 < MAX_AGENT_TURNS demo_env_text" by (simp add: demo_env_text_def demo_env_def)
  have f: "fst (processRequest demo_env_text all_callbacks [] ''hi'') = Inr ''doneverified''"
    by code_simp
  have h3: "processRequest demo_env_text all_callbacks [] ''hi'' = (Inr ''doneverified'', ?s)"
    using f by (metis prod.collapse)
  have h4: "sendMessage demo_env_text 1 (conversationHistory (initial_state [] ''hi'')) =
      Some (?deltas, demo_response1)"
    by (simp add: demo_env_text_def demo_env_def)
  have h5: "injectReadBeforeWriteBlocks (injectedId demo_env_text 1) (r_content demo_response1) =
      (r_content demo_response1, [?tu])"
    by (simp add: demo_response1_def enf_eval)
  have n: "[?tu] \<noteq> [] \<and> streamed_text ?deltas \<noteq> []"
    by (simp add: streamed_text_def)
  from phase_order [OF h1 h2 h3 h4 h5] n have
    "\<exists>k. phases_of (trace ?s) =
                [Thinking, Reasoning] @ replicate (Suc k) CodeWriting
                  @ (if \<not> justExecutedTools ?s \<and> streamed_text (last_streamed (trace ?s)) \<noteq> []
                     then [Building] else [])
                  @ [Completed]
          \<and> model_calls (trace ?s) = Suc k + (if justExecutedTools ?s then 0 else 1)"
    by blast
  then have e: "\<exists>k. phases_of (trace ?s) =
                [Thinking, Reasoning] @ replicate (Suc k) CodeWriting
                  @ (if \<not> justExecutedTools ?s \<and> streamed_text (last_streamed (trace ?s)) \<noteq> []
                     then [Building] else [])
                  @ [Completed]"
    by blast
  have l: "streamed_text (last_streamed (trace ?s)) = ''done''"
    by code_simp
  have p: "phases_of (trace ?s) = [Thinking, Reasoning, CodeWriting, Building, Completed]"
    by code_simp
  have q: "phases_of (trace (snd (processRequest demo_env_silent_end all_callbacks [] ''hi''))) =
        [Thinking, Reasoning, CodeWriting, Completed]"
    by code_simp
  show ?thesis using h1 h2 f e l p q by blast
qed

text \<open>
  C5 as stated fails for a request whose first turn has a tool use and streams no text
  (the model asks for the tool without a word) and whose last turn streams none either:
  the phases are code-writing and completed alone.
\<close>

theorem phase_order_counterexample:
  "snd (injectReadBeforeWriteBlocks (injectedId demo_env 1) (r_content demo_response1)) \<noteq> []
   \<and> fst (processRequest demo_env all_callbacks [] ''hi'') = Inr ''doneverified''
   \<and> phases_of (trace (snd (processRequest demo_env all_callbacks [] ''hi''))) = [CodeWriting, Completed]"
  by code_simp

subsection \<open>When the loop goes on\<close>















subsection \<open>The history between two turns\<close>






subsection \<open>The iterations of a request\<close>







section \<open>Properties of the missing-reference checker\<close>








end
